theory Spec2Isabelle
  imports Complex_Main
begin

section \<open>The page as seen by scripts.js\<close>

text \<open>
  The script keeps no state of its own besides the closures' variables: everything else is
  read from and written to the DOM. An element is a \<open>node\<close>; what the script writes is the
  class list of nodes (\<open>classList.add\<close>, \<open>remove\<close>, \<open>toggle\<close>), kept here as a function
  from nodes to sets of class names. Pixel quantities (\<open>scrollY\<close>, \<open>offsetTop\<close>,
  \<open>offsetHeight\<close>, \<open>clientY\<close>) are JavaScript numbers; they are modelled as reals, which covers
  fractional scroll positions and leaves rounding out.
\<close>

type_synonym node = nat

type_synonym classes = "node \<Rightarrow> string set"

definition classList_add :: "node \<Rightarrow> string \<Rightarrow> classes \<Rightarrow> classes" where
  "classList_add n c cl = cl(n := insert c (cl n))"

definition classList_remove :: "node \<Rightarrow> string \<Rightarrow> classes \<Rightarrow> classes" where
  "classList_remove n c cl = cl(n := cl n - {c})"

definition classList_toggle :: "node \<Rightarrow> string \<Rightarrow> classes \<Rightarrow> classes" where
  "classList_toggle n c cl = (if c \<in> cl n then classList_remove n c cl else classList_add n c cl)"

text \<open>
  What the script reads of an element: its \<open>id\<close> attribute (\<open>getAttribute('id')\<close> is
  \<open>null\<close> without one) and its geometry.
\<close>

record element =
  idAttr :: "string option"
  offsetTop :: real
  offsetHeight :: real

text \<open>
  The structure fixed when \<open>DOMContentLoaded\<close> fires: \<open>navLinks\<close> is
  \<open>document.querySelectorAll('.nav-links a')\<close> in document order, \<open>href\<close> is
  \<open>getAttribute('href')\<close> of a node, \<open>mobileMenuBtn\<close> is
  \<open>document.querySelector('.mobile-menu-btn')\<close>, \<open>mobileNavLinks\<close> is
  \<open>document.querySelector('.nav-links')\<close>, \<open>menuAnchors\<close> is
  \<open>mobileNavLinks.querySelectorAll('a')\<close>, and \<open>contains a b\<close> is \<open>a.contains(b)\<close>.
\<close>

record dom =
  navLinks :: "node list"
  href :: "node \<Rightarrow> string option"
  mobileMenuBtn :: "node option"
  mobileNavLinks :: "node option"
  menuAnchors :: "node list"
  contains :: "node \<Rightarrow> node \<Rightarrow> bool"

text \<open>
  What is read live at each event: \<open>window.scrollY\<close>, the sections
  (\<open>document.querySelectorAll('section')\<close>, in document order), the elements of the
  document in document order (for lookups by id), \<open>offsetHeight\<close> of
  \<open>document.querySelector('.nav-container')\<close> when there is such an element, and the
  browser's answer to \<open>document.querySelector\<close> for the selectors that \<open>querySelector\<close>
  below does not interpret itself. A call either returns or throws.
\<close>

datatype js_error = SyntaxError | TypeError

datatype 'a completion = Returns 'a | Throws js_error

record layout =
  scrollY :: real
  sections :: "element list"
  allElements :: "element list"
  navContainerHeight :: "real option"
  otherSelector :: "string \<Rightarrow> element option completion"

subsection \<open>updateActiveNavLink (lines 37 to 55)\<close>

text \<open>The template literal \<open>`#${sectionId}`\<close>: a \<open>null\<close> id is rendered as the text null.\<close>

definition hashOf :: "string option \<Rightarrow> string" where
  "hashOf sectionId = CHR ''#'' # (case sectionId of None \<Rightarrow> ''null'' | Some s \<Rightarrow> s)"

definition inSection :: "real \<Rightarrow> element \<Rightarrow> bool" where
  "inSection scrollPosition section \<longleftrightarrow>
     scrollPosition \<ge> offsetTop section \<and> scrollPosition < offsetTop section + offsetHeight section"

text \<open>The inner \<open>navLinks.forEach\<close>: each link loses the class, a link whose href is the text gets it back.\<close>

definition markLink :: "dom \<Rightarrow> string option \<Rightarrow> node \<Rightarrow> classes \<Rightarrow> classes" where
  "markLink d sectionId link cl =
     (let cl1 = classList_remove link ''active'' cl
      in if href d link = Some (hashOf sectionId) then classList_add link ''active'' cl1 else cl1)"

definition markLinks :: "dom \<Rightarrow> string option \<Rightarrow> classes \<Rightarrow> classes" where
  "markLinks d sectionId cl = fold (markLink d sectionId) (navLinks d) cl"

definition visitSection :: "dom \<Rightarrow> real \<Rightarrow> element \<Rightarrow> classes \<Rightarrow> classes" where
  "visitSection d scrollPosition section cl =
     (if inSection scrollPosition section then markLinks d (idAttr section) cl else cl)"

definition updateActiveNavLink :: "dom \<Rightarrow> layout \<Rightarrow> classes \<Rightarrow> classes" where
  "updateActiveNavLink d lay cl =
     (let scrollPosition = scrollY lay + 100
      in fold (visitSection d scrollPosition) (sections lay) cl)"

definition isActive :: "classes \<Rightarrow> node \<Rightarrow> bool" where
  "isActive cl link \<longleftrightarrow> ''active'' \<in> cl link"

subsection \<open>The click handler of an anchor link (lines 6 to 34)\<close>

text \<open>
  \<open>href && href.startsWith('#')\<close>: \<open>null\<close> and the empty string are falsy, and the empty
  string does not start with a hash either.
\<close>

definition startsWithHash :: "string \<Rightarrow> bool" where
  "startsWithHash h = (case h of [] \<Rightarrow> False | c # _ \<Rightarrow> c = CHR ''#'')"

definition inPage :: "dom \<Rightarrow> node \<Rightarrow> bool" where
  "inPage d link = (case href d link of None \<Rightarrow> False | Some h \<Rightarrow> startsWithHash h)"

text \<open>
  \<open>document.querySelector(href)\<close> reads the href as a CSS selector. For a hash followed by
  a name of letters, digits, hyphens and underscores that starts with a letter or an
  underscore, the selector is the id selector of that name and the call returns the first
  element of the document with that id, or \<open>null\<close>. A hash alone, and a hash followed by a
  digit, are not selectors (an id selector wants an identifier, and an identifier does not
  start with a digit): the call throws a \<open>SyntaxError\<close>. Every other string (a name
  with other characters, a compound or complex selector) is left to \<open>otherSelector\<close>.
\<close>

definition isDigit :: "char \<Rightarrow> bool" where
  "isDigit c \<longleftrightarrow> c \<in> set ''0123456789''"

definition isNameStart :: "char \<Rightarrow> bool" where
  "isNameStart c \<longleftrightarrow> c \<in> set ''abcdefghijklmnopqrstuvwxyzABCDEFGHIJKLMNOPQRSTUVWXYZ_''"

definition isNameChar :: "char \<Rightarrow> bool" where
  "isNameChar c \<longleftrightarrow> isNameStart c \<or> isDigit c \<or> c = CHR ''-''"

definition plainIdent :: "string \<Rightarrow> bool" where
  "plainIdent name = (case name of [] \<Rightarrow> False | c # cs \<Rightarrow> isNameStart c \<and> list_all isNameChar cs)"

definition getElementById :: "layout \<Rightarrow> string \<Rightarrow> element option" where
  "getElementById lay name = find (\<lambda>e. idAttr e = Some name) (allElements lay)"

definition querySelector :: "layout \<Rightarrow> string \<Rightarrow> element option completion" where
  "querySelector lay selector =
     (case selector of
        [] \<Rightarrow> Throws SyntaxError
      | c # name \<Rightarrow>
          if c = CHR ''#'' \<and> plainIdent name then Returns (getElementById lay name)
          else if c = CHR ''#'' \<and> (case name of [] \<Rightarrow> True | x # _ \<Rightarrow> isDigit x) then Throws SyntaxError
          else otherSelector lay selector)"

text \<open>
  What one run of a click listener leaves behind: whether \<open>e.preventDefault()\<close> was called,
  the \<open>top\<close> of the \<open>window.scrollTo\<close> call if there was one, the exception that left the
  listener if one did, and the class lists.
\<close>

record clickResult =
  defaultPrevented :: bool
  scrolledTo :: "real option"
  thrown :: "js_error option"
  classesAfter :: classes

definition clearActive :: "dom \<Rightarrow> classes \<Rightarrow> classes" where
  "clearActive d cl = fold (\<lambda>link. classList_remove link ''active'') (navLinks d) cl"

text \<open>The listener of lines 11 to 30, for the link \<open>this\<close> with the captured \<open>href\<close>.\<close>

definition anchorClick :: "dom \<Rightarrow> layout \<Rightarrow> node \<Rightarrow> string \<Rightarrow> classes \<Rightarrow> clickResult" where
  "anchorClick d lay this h cl =
     (case querySelector lay h of
        Throws e \<Rightarrow>
          \<lparr>defaultPrevented = True, scrolledTo = None, thrown = Some e, classesAfter = cl\<rparr>
      | Returns None \<Rightarrow>
          \<lparr>defaultPrevented = True, scrolledTo = None, thrown = None, classesAfter = cl\<rparr>
      | Returns (Some targetSection) \<Rightarrow>
          (case navContainerHeight lay of
             None \<Rightarrow>
               \<lparr>defaultPrevented = True, scrolledTo = None, thrown = Some TypeError, classesAfter = cl\<rparr>
           | Some headerHeight \<Rightarrow>
               \<lparr>defaultPrevented = True,
                scrolledTo = Some (offsetTop targetSection - headerHeight),
                thrown = None,
                classesAfter = classList_add this ''active'' (clearActive d cl)\<rparr>))"

text \<open>A click on a nav link: the listener is there only for an href that starts with a hash.\<close>

definition navLinkClick :: "dom \<Rightarrow> layout \<Rightarrow> node \<Rightarrow> classes \<Rightarrow> clickResult" where
  "navLinkClick d lay link cl =
     (case href d link of
        None \<Rightarrow> \<lparr>defaultPrevented = False, scrolledTo = None, thrown = None, classesAfter = cl\<rparr>
      | Some h \<Rightarrow>
          if startsWithHash h then anchorClick d lay link h cl
          else \<lparr>defaultPrevented = False, scrolledTo = None, thrown = None, classesAfter = cl\<rparr>)"

subsection \<open>Mobile menu (lines 77 to 102)\<close>

definition menuToggle :: "node \<Rightarrow> node \<Rightarrow> classes \<Rightarrow> classes" where
  "menuToggle btn panel cl = classList_toggle btn ''active'' (classList_toggle panel ''active'' cl)"

definition menuClose :: "node \<Rightarrow> node \<Rightarrow> classes \<Rightarrow> classes" where
  "menuClose btn panel cl = classList_remove btn ''active'' (classList_remove panel ''active'' cl)"

definition menuOpen :: "node \<Rightarrow> classes \<Rightarrow> bool" where
  "menuOpen panel cl \<longleftrightarrow> ''active'' \<in> cl panel"

text \<open>The listener on the button (line 82), run when the click is on the button or inside it.\<close>

definition buttonListener :: "dom \<Rightarrow> node \<Rightarrow> classes \<Rightarrow> classes" where
  "buttonListener d target cl =
     (case mobileMenuBtn d of
        None \<Rightarrow> cl
      | Some btn \<Rightarrow>
          (case mobileNavLinks d of
             None \<Rightarrow> cl
           | Some panel \<Rightarrow> if contains d btn target then menuToggle btn panel cl else cl))"

text \<open>The listener on each anchor of the panel (line 89).\<close>

definition menuLinkListener :: "dom \<Rightarrow> node \<Rightarrow> classes \<Rightarrow> classes" where
  "menuLinkListener d link cl =
     (case mobileMenuBtn d of
        None \<Rightarrow> cl
      | Some btn \<Rightarrow>
          (case mobileNavLinks d of
             None \<Rightarrow> cl
           | Some panel \<Rightarrow> if link \<in> set (menuAnchors d) then menuClose btn panel cl else cl))"

text \<open>The listener on the document (line 96).\<close>

definition documentListener :: "dom \<Rightarrow> node \<Rightarrow> classes \<Rightarrow> classes" where
  "documentListener d target cl =
     (case mobileMenuBtn d of
        None \<Rightarrow> cl
      | Some btn \<Rightarrow>
          (case mobileNavLinks d of
             None \<Rightarrow> cl
           | Some panel \<Rightarrow>
               if \<not> contains d btn target \<and> \<not> contains d panel target then menuClose btn panel cl
               else cl))"

text \<open>
  A click with a given target runs, in this order: on each nav link that contains the
  target its anchor listener and then its menu listener (the order of registration, lines
  11 and 89; the anchors of the panel are among the nav links, the panel having the class
  \<open>nav-links\<close>); the button's listener; and, last since the event bubbles up to it, the
  document's. An exception in one listener does not keep the others from running.
\<close>

definition linkListeners :: "dom \<Rightarrow> layout \<Rightarrow> node \<Rightarrow> node \<Rightarrow> classes \<Rightarrow> classes" where
  "linkListeners d lay target link cl =
     (if contains d link target
      then menuLinkListener d link (classesAfter (navLinkClick d lay link cl))
      else cl)"

definition click :: "dom \<Rightarrow> layout \<Rightarrow> node \<Rightarrow> classes \<Rightarrow> classes" where
  "click d lay target cl =
     documentListener d target
       (buttonListener d target (fold (linkListeners d lay target) (navLinks d) cl))"

subsection \<open>The intersection observer (lines 104 to 128)\<close>

text \<open>
  The browser calls back with entries; an entry is its target and \<open>isIntersecting\<close>, which
  the browser computes from the options (threshold 0.1, root margin with 50px cut off the
  bottom).
\<close>

definition revealEntry :: "node \<times> bool \<Rightarrow> classes \<Rightarrow> classes" where
  "revealEntry entry cl =
     (if snd entry
      then classList_add (fst entry) ''visible'' (classList_add (fst entry) ''fade-in'' cl)
      else cl)"

definition observerCallback :: "(node \<times> bool) list \<Rightarrow> classes \<Rightarrow> classes" where
  "observerCallback entries cl = fold revealEntry entries cl"

definition revealed :: "classes \<Rightarrow> node \<Rightarrow> bool" where
  "revealed cl n \<longleftrightarrow> ''fade-in'' \<in> cl n \<and> ''visible'' \<in> cl n"

subsection \<open>Every event of the page, as far as class lists go\<close>

text \<open>
  \<open>ScrollTick\<close> is one run of \<open>updateActiveNavLink\<close> (from the scroll listener of line 57 or
  from the timer of the debounced one of line 249). \<open>StyleOnly\<close> stands for the listeners
  and timers that write inline styles, text or the console and no class: \<open>updateHeader\<close>,
  the resume toggle, the hover listeners of the cards, the click log of the project links,
  the typewriter, \<open>keydown\<close>, \<open>touchstart\<close> and \<open>touchmove\<close>. The classes written while
  the page loads (\<open>loading\<close> on the body, \<open>particle\<close> on the new particles) are part of
  the class lists the events start from.
\<close>

datatype event =
    ScrollTick layout
  | Click node layout
  | Intersection "(node \<times> bool) list"
  | StyleOnly

fun step :: "dom \<Rightarrow> event \<Rightarrow> classes \<Rightarrow> classes" where
  "step d (ScrollTick lay) cl = updateActiveNavLink d lay cl"
| "step d (Click target lay) cl = click d lay target cl"
| "step d (Intersection entries) cl = observerCallback entries cl"
| "step d StyleOnly cl = cl"

definition run :: "dom \<Rightarrow> event list \<Rightarrow> classes \<Rightarrow> classes" where
  "run d evs cl = fold (step d) evs cl"

definition activeInPage :: "dom \<Rightarrow> classes \<Rightarrow> node list" where
  "activeInPage d cl = filter (\<lambda>link. inPage d link \<and> isActive cl link) (navLinks d)"

text \<open>The menu button and the panel are not themselves nav links.\<close>

definition menuApart :: "dom \<Rightarrow> bool" where
  "menuApart d \<longleftrightarrow>
     set_option (mobileMenuBtn d) \<inter> set (navLinks d) = {} \<and>
     set_option (mobileNavLinks d) \<inter> set (navLinks d) = {}"

section \<open>Timers and debounce (lines 235 to 250)\<close>

text \<open>
  Time is counted in milliseconds. The browser keeps the pending timers; a timer made by
  the wrapper \<open>k\<close> holds the closure \<open>later\<close> of that call, that is the arguments of the call.
  Each wrapper made by \<open>debounce\<close> has its own variable \<open>timeout\<close> (\<open>None\<close> is
  \<open>undefined\<close>). \<open>invoked\<close> is the trace of the calls \<open>func(...args)\<close> of the wrapped
  functions: when, which function, with which arguments.
\<close>

record ('k, 'a) timer =
  timerId :: nat
  due :: nat
  wrapper :: 'k
  args :: 'a

record ('k, 'a) loop =
  now :: nat
  nextId :: nat
  pending :: "('k, 'a) timer list"
  timeout :: "'k \<Rightarrow> nat option"
  invoked :: "(nat \<times> 'k \<times> 'a) list"

definition start :: "('k, 'a) loop" where
  "start = \<lparr>now = 0, nextId = 1, pending = [], timeout = (\<lambda>k. None), invoked = []\<rparr>"

definition clearTimeout :: "nat option \<Rightarrow> ('k, 'a) loop \<Rightarrow> ('k, 'a) loop" where
  "clearTimeout tid s =
     (case tid of
        None \<Rightarrow> s
      | Some i \<Rightarrow> s\<lparr>pending := filter (\<lambda>t. timerId t \<noteq> i) (pending s)\<rparr>)"

text \<open>
  \<open>setTimeout(later, wait)\<close>. The browser reads the delay as a signed 32-bit integer (the
  value modulo \<open>2^32\<close>, from \<open>2^31\<close> on negative) and takes a negative delay as 0. The
  delay is an integer number of milliseconds here; the cutting of a fraction is left out.
\<close>

definition timerDelay :: "int \<Rightarrow> nat" where
  "timerDelay wait =
     (let w = wait mod 4294967296 in if w < 2147483648 then nat w else 0)"

definition setTimeout :: "'k \<Rightarrow> 'a \<Rightarrow> int \<Rightarrow> ('k, 'a) loop \<Rightarrow> nat \<times> ('k, 'a) loop" where
  "setTimeout k a wait s =
     (nextId s,
      s\<lparr>pending := pending s @
          [\<lparr>timerId = nextId s, due = now s + timerDelay wait, wrapper = k, args = a\<rparr>],
        nextId := Suc (nextId s)\<rparr>)"

text \<open>
  \<open>func(...args)\<close>, for the function wrapped by \<open>k\<close>, and a direct call of it. The run is
  recorded in the trace; the function itself is taken to leave the timers alone.
\<close>

definition call :: "'k \<Rightarrow> 'a \<Rightarrow> ('k, 'a) loop \<Rightarrow> ('k, 'a) loop" where
  "call k a s = s\<lparr>invoked := invoked s @ [(now s, k, a)]\<rparr>"

definition later :: "'k \<Rightarrow> 'a \<Rightarrow> ('k, 'a) loop \<Rightarrow> ('k, 'a) loop" where
  "later k a s = call k a (clearTimeout (timeout s k) s)"

definition executedFunction :: "int \<Rightarrow> 'k \<Rightarrow> 'a \<Rightarrow> ('k, 'a) loop \<Rightarrow> ('k, 'a) loop" where
  "executedFunction wait k a s =
     (let s1 = clearTimeout (timeout s k) s;
          (i, s2) = setTimeout k a wait s1
      in s2\<lparr>timeout := (timeout s2)(k := Some i)\<rparr>)"

text \<open>
  The event loop: a pending timer runs when its time has come, the earlier due first and,
  among equals, the earlier made first (\<open>pending\<close> is in the order of making, and the sort
  is stable). A timer that an earlier one has cleared does not run.
\<close>

definition fire :: "('k, 'a) timer \<Rightarrow> ('k, 'a) loop \<Rightarrow> ('k, 'a) loop" where
  "fire t s =
     (if list_ex (\<lambda>u. timerId u = timerId t) (pending s)
      then later (wrapper t) (args t)
             (s\<lparr>pending := filter (\<lambda>u. timerId u \<noteq> timerId t) (pending s),
                now := max (now s) (due t)\<rparr>)
      else s)"

definition advance :: "nat \<Rightarrow> ('k, 'a) loop \<Rightarrow> ('k, 'a) loop" where
  "advance t s =
     (let s1 = fold fire (sort_key due (filter (\<lambda>u. due u \<le> t) (pending s))) s
      in s1\<lparr>now := max (now s1) t\<rparr>)"

text \<open>
  A task is a piece of script that runs at some time without interruption and calls
  wrappers, one after the other; timers run between tasks, never inside one. \<open>waitOf\<close>
  gives the \<open>wait\<close> with which each wrapper was made.
\<close>

type_synonym ('k, 'a) task = "nat \<times> ('k \<times> 'a) list"

definition runCall :: "('k \<Rightarrow> int) \<Rightarrow> 'k \<times> 'a \<Rightarrow> ('k, 'a) loop \<Rightarrow> ('k, 'a) loop" where
  "runCall waitOf c s = executedFunction (waitOf (fst c)) (fst c) (snd c) s"

definition runTask :: "('k \<Rightarrow> int) \<Rightarrow> ('k, 'a) task \<Rightarrow> ('k, 'a) loop \<Rightarrow> ('k, 'a) loop" where
  "runTask waitOf tk s = fold (runCall waitOf) (snd tk) (advance (fst tk) s)"

definition runTasks :: "('k \<Rightarrow> int) \<Rightarrow> ('k, 'a) task list \<Rightarrow> ('k, 'a) loop \<Rightarrow> ('k, 'a) loop" where
  "runTasks waitOf ts s = fold (runTask waitOf) ts s"

text \<open>The calls of the wrapper \<open>k\<close> in a list of tasks, each with the time of its task.\<close>

definition callsIn :: "'k \<Rightarrow> ('k, 'a) task \<Rightarrow> (nat \<times> 'a) list" where
  "callsIn k tk = map (\<lambda>c. (fst tk, snd c)) (filter (\<lambda>c. fst c = k) (snd tk))"

definition callsTo :: "'k \<Rightarrow> ('k, 'a) task list \<Rightarrow> (nat \<times> 'a) list" where
  "callsTo k ts = concat (map (callsIn k) ts)"

text \<open>
  Each call of \<open>k\<close> comes in the task of the call before it or less than \<open>wait\<close> after it;
  \<open>prev\<close> is the time of the last task before these that called \<open>k\<close>, if there was one.
\<close>

fun closeCalls :: "'k \<Rightarrow> int \<Rightarrow> nat option \<Rightarrow> ('k, 'a) task list \<Rightarrow> bool" where
  "closeCalls k wait prev [] = True"
| "closeCalls k wait prev (tk # ts) =
     (if callsIn k tk = [] then closeCalls k wait prev ts
      else (case prev of None \<Rightarrow> True | Some p \<Rightarrow> int (fst tk) < int p + wait) \<and>
           closeCalls k wait (Some (fst tk)) ts)"

text \<open>
  The ids of the timers are as the browser hands them out: no two pending timers share
  one, none has been handed out that is not below \<open>nextId\<close>, and a pending timer that the
  variable \<open>timeout\<close> of a wrapper names was made by that wrapper.
\<close>

definition freshIds :: "('k, 'a) loop \<Rightarrow> bool" where
  "freshIds s \<longleftrightarrow>
     distinct (map timerId (pending s)) \<and>
     (\<forall>u \<in> set (pending s). timerId u < nextId s) \<and>
     (\<forall>k i. timeout s k = Some i \<longrightarrow> i < nextId s) \<and>
     (\<forall>u \<in> set (pending s). \<forall>k. timeout s k = Some (timerId u) \<longrightarrow> wrapper u = k)"

definition idle :: "'k \<Rightarrow> ('k, 'a) loop \<Rightarrow> bool" where
  "idle k s \<longleftrightarrow> list_all (\<lambda>u. wrapper u \<noteq> k) (pending s)"

text \<open>
  One wrapper seen alone: the runs of its function so far and the call it holds, if any,
  with the time at which that call will run. A call replaces the one held; when the time
  of the held call has come it runs.
\<close>

type_synonym 'a slot = "(nat \<times> 'a) list \<times> (nat \<times> 'a) option"

definition slotAdvance :: "nat \<Rightarrow> 'a slot \<Rightarrow> 'a slot" where
  "slotAdvance t st =
     (case snd st of
        None \<Rightarrow> st
      | Some c \<Rightarrow> if fst c \<le> t then (fst st @ [c], None) else st)"

definition slotCall :: "'k \<Rightarrow> nat \<Rightarrow> nat \<Rightarrow> 'k \<times> 'a \<Rightarrow> 'a slot \<Rightarrow> 'a slot" where
  "slotCall k delay t c st = (if fst c = k then (fst st, Some (t + delay, snd c)) else st)"

definition slotTask :: "'k \<Rightarrow> nat \<Rightarrow> ('k, 'a) task \<Rightarrow> 'a slot \<Rightarrow> 'a slot" where
  "slotTask k delay tk st = fold (slotCall k delay (fst tk)) (snd tk) (slotAdvance (fst tk) st)"

text \<open>
  The scroll listeners of the window, in the order of registration: \<open>updateActiveNavLink\<close>
  (line 57), \<open>updateHeader\<close> (line 165), \<open>debounce(updateActiveNavLink, 10)\<close> (line 249) and
  \<open>debounce(updateHeader, 10)\<close> (line 250).
\<close>

datatype scrollHandler = UpdateActiveNavLink | UpdateHeader

definition scrollEvent :: "'a \<Rightarrow> (scrollHandler, 'a) loop \<Rightarrow> (scrollHandler, 'a) loop" where
  "scrollEvent e s =
     executedFunction 10 UpdateHeader e
       (executedFunction 10 UpdateActiveNavLink e
          (call UpdateHeader e (call UpdateActiveNavLink e s)))"

definition scrollAt :: "nat \<times> 'a \<Rightarrow> (scrollHandler, 'a) loop \<Rightarrow> (scrollHandler, 'a) loop" where
  "scrollAt c s = scrollEvent (snd c) (advance (fst c) s)"

definition invocations :: "'k \<Rightarrow> ('k, 'a) loop \<Rightarrow> (nat \<times> 'a) list" where
  "invocations k s = map (\<lambda>c. (fst c, snd (snd c))) (filter (\<lambda>c. fst (snd c) = k) (invoked s))"

text \<open>
  The loop agrees with the wrapper \<open>k\<close> seen alone: the function has run as the slot says,
  and the call the slot holds is the one pending timer of the wrapper, named by its
  \<open>timeout\<close> and not yet overdue.
\<close>

definition holds :: "'k \<Rightarrow> 'a slot \<Rightarrow> ('k, 'a) loop \<Rightarrow> bool" where
  "holds k st s \<longleftrightarrow>
     freshIds s \<and> invocations k s = fst st \<and>
     (case snd st of
        None \<Rightarrow> idle k s
      | Some c \<Rightarrow>
          (\<exists>i. filter (\<lambda>u. wrapper u = k) (pending s) =
                 [\<lparr>timerId = i, due = fst c, wrapper = k, args = snd c\<rparr>] \<and>
               timeout s k = Some i))"

definition tracks :: "'k \<Rightarrow> 'a slot \<Rightarrow> ('k, 'a) loop \<Rightarrow> bool" where
  "tracks k st s \<longleftrightarrow>
     holds k st s \<and> (case snd st of None \<Rightarrow> True | Some c \<Rightarrow> now s \<le> fst c)"

text \<open>Every wrapper made with the same \<open>wait\<close>.\<close>

definition sameWait :: "int \<Rightarrow> 'k \<Rightarrow> int" where
  "sameWait wait k = wait"

section \<open>Touch (lines 260 to 275)\<close>

text \<open>
  The listeners of lines 262 and 266 are added near the end of the \<open>DOMContentLoaded\<close>
  listener, after the call \<open>createParticles()\<close> of line 211. \<open>createParticles\<close> looks up
  \<open>document.querySelector('.hero')\<close> and appends the first particle to it (line 207); with
  no such element that is a property access on \<open>null\<close>, the \<open>TypeError\<close> leaves the
  \<open>DOMContentLoaded\<close> listener, and nothing after line 211 is run.
\<close>

definition createParticles :: "node option \<Rightarrow> unit completion" where
  "createParticles hero = (case hero of None \<Rightarrow> Throws TypeError | Some h \<Rightarrow> Returns ())"

definition touchListenersAdded :: "node option \<Rightarrow> bool" where
  "touchListenersAdded hero =
     (case createParticles hero of Throws e \<Rightarrow> False | Returns u \<Rightarrow> True)"

text \<open>
  \<open>touchstart\<close> stores \<open>clientY\<close> of the first touch in \<open>touchStartY\<close>; the listener of
  \<open>touchmove\<close> reads the first touch again and calls \<open>e.preventDefault()\<close> under the
  condition of line 271. \<open>touchmove\<close> is a touch-move event on a page with the given
  \<open>.hero\<close> element, if any: whether \<open>e.preventDefault()\<close> is called.
\<close>

record viewport =
  windowScrollY :: real
  innerHeight :: real
  bodyOffsetHeight :: real

definition touchstart :: "real \<Rightarrow> real" where
  "touchstart clientY = clientY"

definition touchmoveListener :: "viewport \<Rightarrow> real \<Rightarrow> real \<Rightarrow> bool" where
  "touchmoveListener w touchStartY touchY =
     (let deltaY = touchStartY - touchY
      in (windowScrollY w = 0 \<and> deltaY < 0) \<or>
         (innerHeight w + windowScrollY w \<ge> bodyOffsetHeight w \<and> deltaY > 0))"

definition touchmove :: "node option \<Rightarrow> viewport \<Rightarrow> real \<Rightarrow> real \<Rightarrow> bool" where
  "touchmove hero w touchStartY touchY =
     (if touchListenersAdded hero then touchmoveListener w touchStartY touchY else False)"

section \<open>A sample page\<close>

text \<open>
  Three nav links inside the panel (nodes 1 to 3: two anchors of the page and an external
  link), the menu button (node 10), the panel (node 11), and three sections, \<open>about\<close> from
  600 to 1000, \<open>projects\<close> from 1000 to 1500 and \<open>contact\<close>, to which no link points,
  from 1500 to 1800, under a header 80 high.
\<close>

definition sampleDom :: dom where
  "sampleDom =
     \<lparr>navLinks = [1, 2, 3],
      href = (\<lambda>n. if n = 1 then Some ''#about'' else if n = 2 then Some ''#projects''
                  else if n = 3 then Some ''https://example.com/'' else None),
      mobileMenuBtn = Some 10,
      mobileNavLinks = Some 11,
      menuAnchors = [1, 2, 3],
      contains = (\<lambda>a b. a = b \<or> (a = 11 \<and> b \<in> {1, 2, 3}))\<rparr>"

definition sampleSections :: "element list" where
  "sampleSections =
     [\<lparr>idAttr = Some ''about'', offsetTop = 600, offsetHeight = 400\<rparr>,
      \<lparr>idAttr = Some ''projects'', offsetTop = 1000, offsetHeight = 500\<rparr>,
      \<lparr>idAttr = Some ''contact'', offsetTop = 1500, offsetHeight = 300\<rparr>]"

definition sampleLayout :: "real \<Rightarrow> layout" where
  "sampleLayout y =
     \<lparr>scrollY = y, sections = sampleSections, allElements = sampleSections,
      navContainerHeight = Some 80, otherSelector = (\<lambda>s. Returns None)\<rparr>"

definition noClasses :: classes where
  "noClasses = (\<lambda>n. {})"

text \<open>The sections nested: \<open>about\<close> lies inside a section \<open>main\<close>, to which no link points.\<close>

definition nestedLayout :: "real \<Rightarrow> layout" where
  "nestedLayout y =
     \<lparr>scrollY = y,
      sections = [\<lparr>idAttr = Some ''main'', offsetTop = 0, offsetHeight = 2000\<rparr>,
                  \<lparr>idAttr = Some ''about'', offsetTop = 600, offsetHeight = 400\<rparr>],
      allElements = [\<lparr>idAttr = Some ''main'', offsetTop = 0, offsetHeight = 2000\<rparr>,
                     \<lparr>idAttr = Some ''about'', offsetTop = 600, offsetHeight = 400\<rparr>],
      navContainerHeight = Some 80, otherSelector = (\<lambda>s. Returns None)\<rparr>"

text \<open>A page whose only section has no id, and whose only link has the href \<open>#null\<close>.\<close>

definition noIdDom :: dom where
  "noIdDom =
     \<lparr>navLinks = [1], href = (\<lambda>n. if n = 1 then Some ''#null'' else None),
      mobileMenuBtn = None, mobileNavLinks = None, menuAnchors = [],
      contains = (\<lambda>a b. a = b)\<rparr>"

definition noIdLayout :: "real \<Rightarrow> layout" where
  "noIdLayout y =
     \<lparr>scrollY = y, sections = [\<lparr>idAttr = None, offsetTop = 0, offsetHeight = 1000\<rparr>],
      allElements = [\<lparr>idAttr = None, offsetTop = 0, offsetHeight = 1000\<rparr>],
      navContainerHeight = Some 80, otherSelector = (\<lambda>s. Returns None)\<rparr>"

text \<open>
  A page with the same link twice (nodes 1 and 2, say in a desktop list and in a mobile
  list that both have the class \<open>nav-links\<close>), both to \<open>#about\<close>.
\<close>

definition twinDom :: dom where
  "twinDom =
     \<lparr>navLinks = [1, 2], href = (\<lambda>n. if n = 1 \<or> n = 2 then Some ''#about'' else None),
      mobileMenuBtn = None, mobileNavLinks = None, menuAnchors = [],
      contains = (\<lambda>a b. a = b)\<rparr>"

text \<open>
  A page with a section whose id is \<open>2024\<close> and three links: to \<open>#2024\<close> (node 1), to \<open>#\<close>
  (node 2) and to \<open>#2025\<close>, an id that no element has (node 3).
\<close>

definition yearDom :: dom where
  "yearDom =
     \<lparr>navLinks = [1, 2, 3],
      href = (\<lambda>n. if n = 1 then Some ''#2024'' else if n = 2 then Some ''#''
                  else if n = 3 then Some ''#2025'' else None),
      mobileMenuBtn = None, mobileNavLinks = None, menuAnchors = [],
      contains = (\<lambda>a b. a = b)\<rparr>"

definition yearLayout :: layout where
  "yearLayout =
     \<lparr>scrollY = 0, sections = [\<lparr>idAttr = Some ''2024'', offsetTop = 600, offsetHeight = 400\<rparr>],
      allElements = [\<lparr>idAttr = Some ''2024'', offsetTop = 600, offsetHeight = 400\<rparr>],
      navContainerHeight = Some 80, otherSelector = (\<lambda>s. Returns None)\<rparr>"

text \<open>
  The calls of the two debounced listeners (lines 249 and 250) in the tasks of three scroll
  events at 0, 1 and 2 ms, the events numbered 0, 1 and 2.
\<close>

definition scrollTasks :: "(scrollHandler, nat) task list" where
  "scrollTasks =
     [(0, [(UpdateActiveNavLink, 0), (UpdateHeader, 0)]),
      (1, [(UpdateActiveNavLink, 1), (UpdateHeader, 1)]),
      (2, [(UpdateActiveNavLink, 2), (UpdateHeader, 2)])]"

section \<open>Scroll-driven activation\<close>

lemma fold_visit_outside:
  "list_all (\<lambda>s. \<not> inSection p s) ss \<Longrightarrow> fold (visitSection d p) ss cl = cl"
  by (induction ss arbitrary: cl) (simp_all add: visitSection_def)

text \<open>
  C1. When the probe position \<open>scrollY + 100\<close> lies in no section's half-open interval
  \<open>[offsetTop, offsetTop + offsetHeight)\<close>, a run of \<open>updateActiveNavLink\<close> changes no
  class of any node: every nav link keeps the active state it had, and the previously
  active link is not cleared.
\<close>

theorem updateActiveNavLink_gap_unchanged:
  assumes "\<forall>s \<in> set (sections lay). \<not> inSection (scrollY lay + 100) s"
  shows "updateActiveNavLink d lay cl = cl"
proof -
  from assms have "list_all (\<lambda>s. \<not> inSection (scrollY lay + 100) s) (sections lay)"
    by (simp add: list_all_iff)
  then show ?thesis
    by (simp add: updateActiveNavLink_def fold_visit_outside)
qed

theorem updateActiveNavLink_gap_unchanged_witness:
  "list_all (\<lambda>s. \<not> inSection (scrollY (sampleLayout 0) + 100) s) (sections (sampleLayout 0)) \<and>
   updateActiveNavLink sampleDom (sampleLayout 0) (classList_add 1 ''active'' noClasses) =
     classList_add 1 ''active'' noClasses"
  using updateActiveNavLink_gap_unchanged
    [of "sampleLayout 0" sampleDom "classList_add 1 ''active'' noClasses"]
  by (simp add: sampleLayout_def sampleSections_def inSection_def)

subsection \<open>What a run of updateActiveNavLink leaves in each class list\<close>

lemma fold_markLink_apply:
  "fold (markLink d sid) xs cl n =
     (if n \<in> set xs
      then (if href d n = Some (hashOf sid) then insert ''active'' (cl n) else cl n - {''active''})
      else cl n)"
  by (induction xs arbitrary: cl)
     (auto simp: markLink_def classList_add_def classList_remove_def Let_def)

lemma markLinks_apply:
  "markLinks d sid cl n =
     (if n \<in> set (navLinks d)
      then (if href d n = Some (hashOf sid) then insert ''active'' (cl n) else cl n - {''active''})
      else cl n)"
  by (simp add: markLinks_def fold_markLink_apply)

text \<open>The sections are visited in document order, so the last one that holds the probe decides.\<close>

lemma fold_visitSection_apply:
  "fold (visitSection d p) ss cl n =
     (if n \<in> set (navLinks d) \<and> filter (inSection p) ss \<noteq> []
      then (if href d n = Some (hashOf (idAttr (last (filter (inSection p) ss))))
            then insert ''active'' (cl n) else cl n - {''active''})
      else cl n)"
proof (induction ss rule: rev_induct)
  case Nil
  show ?case by simp
next
  case (snoc s ss)
  show ?case
    using snoc.IH
    by (auto simp: visitSection_def markLinks_apply)
qed

lemma updateActiveNavLink_apply:
  "updateActiveNavLink d lay cl n =
     (if n \<in> set (navLinks d) \<and> filter (inSection (scrollY lay + 100)) (sections lay) \<noteq> []
      then (if href d n =
                 Some (hashOf (idAttr (last (filter (inSection (scrollY lay + 100)) (sections lay)))))
            then insert ''active'' (cl n) else cl n - {''active''})
      else cl n)"
  by (simp add: updateActiveNavLink_def fold_visitSection_apply)

text \<open>
  C10, as stated, fails in two ways. On a page whose only section has no id and whose only
  link has the href \<open>#null\<close>, the probe is in that section and the link is made active: the
  missing id is compared as the text null. And on the sample page with \<open>about\<close> nested in a
  section \<open>main\<close> to which no link points, the probe at 700 is inside \<open>main\<close>, yet the link
  to \<open>#about\<close> is active after the run, because \<open>about\<close> is visited after \<open>main\<close>.
\<close>

theorem section_without_link_counterexample:
  "(inSection (scrollY (noIdLayout 0) + 100) \<lparr>idAttr = None, offsetTop = 0, offsetHeight = 1000\<rparr> \<and>
    sections (noIdLayout 0) = [\<lparr>idAttr = None, offsetTop = 0, offsetHeight = 1000\<rparr>] \<and>
    isActive (updateActiveNavLink noIdDom (noIdLayout 0) noClasses) 1) \<and>
   (inSection (scrollY (nestedLayout 600) + 100)
      \<lparr>idAttr = Some ''main'', offsetTop = 0, offsetHeight = 2000\<rparr> \<and>
    \<lparr>idAttr = Some ''main'', offsetTop = 0, offsetHeight = 2000\<rparr> \<in> set (sections (nestedLayout 600)) \<and>
    href sampleDom 1 \<noteq> Some ''#main'' \<and> href sampleDom 2 \<noteq> Some ''#main'' \<and>
    href sampleDom 3 \<noteq> Some ''#main'' \<and> navLinks sampleDom = [1, 2, 3] \<and>
    isActive (updateActiveNavLink sampleDom (nestedLayout 600) noClasses) 1)"
  by (simp add: updateActiveNavLink_apply isActive_def inSection_def hashOf_def
      noIdLayout_def noIdDom_def nestedLayout_def sampleDom_def noClasses_def)

text \<open>
  C10, amended. When the probe position \<open>scrollY + 100\<close> lies inside some section, and for
  the last such section in document order no nav link has the href that the script
  compares with (\<open>#\<close> followed by the id; for a section with no id attribute the template
  literal gives \<open>#null\<close>), a run of \<open>updateActiveNavLink\<close> leaves no nav link active: the
  previously active link does not persist.
\<close>

theorem last_section_without_link_clears_all:
  assumes "filter (inSection (scrollY lay + 100)) (sections lay) \<noteq> []"
    and "\<forall>link \<in> set (navLinks d).
           href d link \<noteq>
             Some (hashOf (idAttr (last (filter (inSection (scrollY lay + 100)) (sections lay)))))"
  shows "\<forall>link \<in> set (navLinks d). \<not> isActive (updateActiveNavLink d lay cl) link"
  using assms by (simp add: isActive_def updateActiveNavLink_apply)

theorem last_section_without_link_clears_all_witness:
  "filter (inSection (scrollY (sampleLayout 1500) + 100)) (sections (sampleLayout 1500)) =
     [\<lparr>idAttr = Some ''contact'', offsetTop = 1500, offsetHeight = 300\<rparr>] \<and>
   isActive (classList_add 1 ''active'' noClasses) 1 \<and>
   list_all (\<lambda>link. \<not> isActive
       (updateActiveNavLink sampleDom (sampleLayout 1500) (classList_add 1 ''active'' noClasses)) link)
     (navLinks sampleDom)"
proof -
  have f: "filter (inSection (scrollY (sampleLayout 1500) + 100)) (sections (sampleLayout 1500)) =
     [\<lparr>idAttr = Some ''contact'', offsetTop = 1500, offsetHeight = 300\<rparr>]"
    by (simp add: sampleLayout_def sampleSections_def inSection_def)
  have h: "\<forall>link \<in> set (navLinks sampleDom).
      href sampleDom link \<noteq>
        Some (hashOf (idAttr (last (filter (inSection (scrollY (sampleLayout 1500) + 100))
          (sections (sampleLayout 1500))))))"
    unfolding f by (simp add: sampleDom_def hashOf_def)
  have a: "isActive (classList_add 1 ''active'' noClasses) 1"
    by (simp add: isActive_def classList_add_def)
  from f have "filter (inSection (scrollY (sampleLayout 1500) + 100)) (sections (sampleLayout 1500)) \<noteq> []"
    by simp
  from last_section_without_link_clears_all [OF this h] f a
  show ?thesis by (simp add: list_all_iff)
qed

subsection \<open>At most one active link\<close>

lemma filter_eq_value_le_one:
  "distinct (map f xs) \<Longrightarrow> length (filter (\<lambda>x. f x = v) xs) \<le> Suc 0"
proof (induction xs)
  case Nil
  show ?case by simp
next
  case (Cons x xs)
  show ?case
  proof (cases "f x = v")
    case True
    from Cons.prems have "f x \<notin> f ` set xs" by simp
    with True have "\<forall>y \<in> set xs. f y \<noteq> v" by blast
    then have "filter (\<lambda>x. f x = v) xs = []" by (simp add: filter_empty_conv)
    with True show ?thesis by simp
  next
    case False
    with Cons show ?thesis by simp
  qed
qed

lemma activeInPage_cong:
  "(\<And>link. link \<in> set (navLinks d) \<Longrightarrow> isActive cl' link = isActive cl link) \<Longrightarrow>
   activeInPage d cl' = activeInPage d cl"
  unfolding activeInPage_def by (rule filter_cong) auto

lemma activeInPage_markLinks:
  "activeInPage d (markLinks d sid cl) =
     filter (\<lambda>link. href d link = Some (hashOf sid)) (filter (inPage d) (navLinks d))"
  unfolding activeInPage_def filter_filter
  by (rule filter_cong) (auto simp: isActive_def markLinks_apply)

lemma markLinks_at_most_one:
  assumes "distinct (map (href d) (filter (inPage d) (navLinks d)))"
  shows "length (activeInPage d (markLinks d sid cl)) \<le> Suc 0"
  unfolding activeInPage_markLinks using assms by (rule filter_eq_value_le_one)

lemma fold_visitSection_at_most_one:
  assumes "distinct (map (href d) (filter (inPage d) (navLinks d)))"
    and "length (activeInPage d cl) \<le> Suc 0"
  shows "length (activeInPage d (fold (visitSection d p) ss cl)) \<le> Suc 0"
  using assms(2)
proof (induction ss arbitrary: cl)
  case Nil
  then show ?case by simp
next
  case (Cons s ss)
  have "length (activeInPage d (visitSection d p s cl)) \<le> Suc 0"
    using Cons.prems assms(1) by (simp add: visitSection_def markLinks_at_most_one)
  then show ?case by (simp add: Cons.IH)
qed

lemma fold_remove_apply:
  "fold (\<lambda>link. classList_remove link c) xs cl n = (if n \<in> set xs then cl n - {c} else cl n)"
  by (induction xs arbitrary: cl) (auto simp: classList_remove_def)

lemma clearActive_apply:
  "clearActive d cl n = (if n \<in> set (navLinks d) then cl n - {''active''} else cl n)"
  by (simp add: clearActive_def fold_remove_apply)

lemma activeInPage_activate:
  "activeInPage d (classList_add this ''active'' (clearActive d cl)) =
     filter (\<lambda>link. link = this) (filter (inPage d) (navLinks d))"
  unfolding activeInPage_def filter_filter
  by (rule filter_cong) (auto simp: isActive_def classList_add_def clearActive_apply)

lemma activate_at_most_one:
  assumes "distinct (filter (inPage d) (navLinks d))"
  shows "length (activeInPage d (classList_add this ''active'' (clearActive d cl))) \<le> Suc 0"
proof -
  from assms have "distinct (map (\<lambda>x. x) (filter (inPage d) (navLinks d)))" by simp
  then show ?thesis unfolding activeInPage_activate by (rule filter_eq_value_le_one)
qed

lemma classesAfter_navLinkClick:
  "classesAfter (navLinkClick d lay link cl) = cl \<or>
   classesAfter (navLinkClick d lay link cl) = classList_add link ''active'' (clearActive d cl)"
  by (simp add: navLinkClick_def anchorClick_def split: option.splits completion.splits)

lemma navLinkClick_at_most_one:
  assumes "distinct (filter (inPage d) (navLinks d))"
    and "length (activeInPage d cl) \<le> Suc 0"
  shows "length (activeInPage d (classesAfter (navLinkClick d lay link cl))) \<le> Suc 0"
  using classesAfter_navLinkClick [of d lay link cl] assms
  by (auto simp: activate_at_most_one)

lemma activeInPage_menuClose:
  "btn \<notin> set (navLinks d) \<Longrightarrow> panel \<notin> set (navLinks d) \<Longrightarrow>
   activeInPage d (menuClose btn panel cl) = activeInPage d cl"
  by (rule activeInPage_cong) (auto simp: isActive_def menuClose_def classList_remove_def)

lemma activeInPage_menuToggle:
  "btn \<notin> set (navLinks d) \<Longrightarrow> panel \<notin> set (navLinks d) \<Longrightarrow>
   activeInPage d (menuToggle btn panel cl) = activeInPage d cl"
  by (rule activeInPage_cong)
     (auto simp: isActive_def menuToggle_def classList_toggle_def classList_remove_def
        classList_add_def)

lemma activeInPage_menuLinkListener:
  "menuApart d \<Longrightarrow> activeInPage d (menuLinkListener d link cl) = activeInPage d cl"
  by (auto simp: menuApart_def menuLinkListener_def activeInPage_menuClose split: option.splits)

lemma activeInPage_buttonListener:
  "menuApart d \<Longrightarrow> activeInPage d (buttonListener d target cl) = activeInPage d cl"
  by (auto simp: menuApart_def buttonListener_def activeInPage_menuToggle split: option.splits)

lemma activeInPage_documentListener:
  "menuApart d \<Longrightarrow> activeInPage d (documentListener d target cl) = activeInPage d cl"
  by (auto simp: menuApart_def documentListener_def activeInPage_menuClose split: option.splits)

lemma fold_linkListeners_at_most_one:
  assumes "distinct (filter (inPage d) (navLinks d))" and "menuApart d"
    and "length (activeInPage d cl) \<le> Suc 0"
  shows "length (activeInPage d (fold (linkListeners d lay target) xs cl)) \<le> Suc 0"
  using assms(3)
proof (induction xs arbitrary: cl)
  case Nil
  then show ?case by simp
next
  case (Cons x xs)
  have "length (activeInPage d (linkListeners d lay target x cl)) \<le> Suc 0"
    using Cons.prems assms(1,2)
    by (simp add: linkListeners_def activeInPage_menuLinkListener navLinkClick_at_most_one)
  then show ?case by (simp add: Cons.IH)
qed

lemma click_at_most_one:
  assumes "distinct (filter (inPage d) (navLinks d))" and "menuApart d"
    and "length (activeInPage d cl) \<le> Suc 0"
  shows "length (activeInPage d (click d lay target cl)) \<le> Suc 0"
  using assms
  by (simp add: click_def activeInPage_documentListener activeInPage_buttonListener
      fold_linkListeners_at_most_one)

lemma fold_revealEntry_active:
  "isActive (fold revealEntry es cl) n = isActive cl n"
  by (induction es arbitrary: cl) (auto simp: revealEntry_def isActive_def classList_add_def)

lemma activeInPage_observerCallback:
  "activeInPage d (observerCallback es cl) = activeInPage d cl"
  by (rule activeInPage_cong) (simp add: observerCallback_def fold_revealEntry_active)

lemma step_at_most_one:
  assumes "distinct (map (href d) (filter (inPage d) (navLinks d)))" and "menuApart d"
    and "length (activeInPage d cl) \<le> Suc 0"
  shows "length (activeInPage d (step d ev cl)) \<le> Suc 0"
proof -
  from assms(1) have dl: "distinct (filter (inPage d) (navLinks d))"
    by (rule distinct_map [THEN iffD1, THEN conjunct1])
  show ?thesis
  proof (cases ev)
    case (ScrollTick lay)
    then show ?thesis
      using assms by (simp add: updateActiveNavLink_def fold_visitSection_at_most_one)
  next
    case (Click target lay)
    then show ?thesis using dl assms(2,3) by (simp add: click_at_most_one)
  next
    case (Intersection es)
    then show ?thesis using assms(3) by (simp add: activeInPage_observerCallback)
  next
    case StyleOnly
    then show ?thesis using assms(3) by simp
  qed
qed

text \<open>
  C2, as stated, fails: \<open>updateActiveNavLink\<close> gives the class to every link whose href is
  the text, so on a page with two links to \<open>#about\<close> and no active link, one scroll tick
  with the probe in \<open>about\<close> leaves both links active.
\<close>

theorem twin_links_counterexample:
  "activeInPage twinDom noClasses = [] \<and>
   activeInPage twinDom (run twinDom [ScrollTick (sampleLayout 550)] noClasses) = [1, 2]"
  by (simp add: run_def activeInPage_def updateActiveNavLink_apply isActive_def inPage_def
      startsWithHash_def inSection_def hashOf_def twinDom_def sampleLayout_def sampleSections_def
      noClasses_def)

text \<open>
  C2, amended. On a page where no two in-page nav links have the same href and the menu
  button and panel are not nav links, a state with at most one active in-page nav link
  is followed only by such states, whatever events come: the click handler removes the
  class from every nav link and gives it to the clicked one, and the scroll-driven update
  removes it from every nav link and gives it to the links whose href is the text \<open>#\<close>
  followed by the id of the section, of which there is at most one.
\<close>

theorem at_most_one_active_link:
  assumes "distinct (map (href d) (filter (inPage d) (navLinks d)))" and "menuApart d"
    and "length (activeInPage d cl) \<le> 1"
  shows "length (activeInPage d (run d evs cl)) \<le> 1"
  using assms(3) unfolding run_def
proof (induction evs arbitrary: cl)
  case Nil
  then show ?case by simp
next
  case (Cons ev evs)
  have "length (activeInPage d (step d ev cl)) \<le> 1"
    using step_at_most_one [OF assms(1,2)] Cons.prems by simp
  then show ?case using Cons.IH by simp
qed

theorem at_most_one_active_link_witness:
  "distinct (map (href sampleDom) (filter (inPage sampleDom) (navLinks sampleDom))) \<and>
   menuApart sampleDom \<and>
   length (activeInPage sampleDom noClasses) \<le> 1 \<and>
   length (activeInPage sampleDom
     (run sampleDom
        [ScrollTick (sampleLayout 550), Click 10 (sampleLayout 550), Click 2 (sampleLayout 550),
         Intersection [(20, True)], ScrollTick (sampleLayout 2000)]
        noClasses)) \<le> 1"
proof -
  have h1: "distinct (map (href sampleDom) (filter (inPage sampleDom) (navLinks sampleDom)))"
    by (simp add: sampleDom_def inPage_def startsWithHash_def)
  have h2: "menuApart sampleDom"
    by (simp add: menuApart_def sampleDom_def)
  have h3: "length (activeInPage sampleDom noClasses) \<le> 1"
    by (simp add: activeInPage_def isActive_def noClasses_def)
  from at_most_one_active_link [OF h1 h2 h3] h1 h2 h3 show ?thesis by simp
qed

section \<open>Reveal on intersection\<close>

text \<open>No listener takes a class other than \<open>active\<close> away from any node.\<close>

lemma updateActiveNavLink_keeps:
  "c \<noteq> ''active'' \<Longrightarrow> c \<in> cl n \<Longrightarrow> c \<in> updateActiveNavLink d lay cl n"
  by (simp add: updateActiveNavLink_apply)

lemma menuClose_keeps:
  "c \<noteq> ''active'' \<Longrightarrow> c \<in> cl n \<Longrightarrow> c \<in> menuClose btn panel cl n"
  by (auto simp: menuClose_def classList_remove_def)

lemma menuToggle_keeps:
  "c \<noteq> ''active'' \<Longrightarrow> c \<in> cl n \<Longrightarrow> c \<in> menuToggle btn panel cl n"
  by (auto simp: menuToggle_def classList_toggle_def classList_remove_def classList_add_def)

lemma navLinkClick_keeps:
  "c \<noteq> ''active'' \<Longrightarrow> c \<in> cl n \<Longrightarrow> c \<in> classesAfter (navLinkClick d lay link cl) n"
  using classesAfter_navLinkClick [of d lay link cl]
  by (auto simp: classList_add_def clearActive_apply)

lemma menuLinkListener_keeps:
  "c \<noteq> ''active'' \<Longrightarrow> c \<in> cl n \<Longrightarrow> c \<in> menuLinkListener d link cl n"
  by (simp add: menuLinkListener_def menuClose_keeps split: option.splits)

lemma buttonListener_keeps:
  "c \<noteq> ''active'' \<Longrightarrow> c \<in> cl n \<Longrightarrow> c \<in> buttonListener d target cl n"
  by (simp add: buttonListener_def menuToggle_keeps split: option.splits)

lemma documentListener_keeps:
  "c \<noteq> ''active'' \<Longrightarrow> c \<in> cl n \<Longrightarrow> c \<in> documentListener d target cl n"
  by (simp add: documentListener_def menuClose_keeps split: option.splits)

lemma linkListeners_keeps:
  "c \<noteq> ''active'' \<Longrightarrow> c \<in> cl n \<Longrightarrow> c \<in> linkListeners d lay target link cl n"
  by (simp add: linkListeners_def menuLinkListener_keeps navLinkClick_keeps)

lemma fold_linkListeners_keeps:
  "c \<noteq> ''active'' \<Longrightarrow> c \<in> cl n \<Longrightarrow> c \<in> fold (linkListeners d lay target) xs cl n"
  by (induction xs arbitrary: cl) (simp_all add: linkListeners_keeps)

lemma click_keeps:
  "c \<noteq> ''active'' \<Longrightarrow> c \<in> cl n \<Longrightarrow> c \<in> click d lay target cl n"
  by (simp add: click_def documentListener_keeps buttonListener_keeps fold_linkListeners_keeps)

lemma revealEntry_keeps: "c \<in> cl n \<Longrightarrow> c \<in> revealEntry e cl n"
  by (auto simp: revealEntry_def classList_add_def)

lemma observerCallback_keeps: "c \<in> cl n \<Longrightarrow> c \<in> observerCallback es cl n"
  unfolding observerCallback_def
  by (induction es arbitrary: cl) (simp_all add: revealEntry_keeps)

lemma step_keeps:
  "c \<noteq> ''active'' \<Longrightarrow> c \<in> cl n \<Longrightarrow> c \<in> step d ev cl n"
  by (cases ev) (simp_all add: updateActiveNavLink_keeps click_keeps observerCallback_keeps)

lemma run_keeps:
  "c \<noteq> ''active'' \<Longrightarrow> c \<in> cl n \<Longrightarrow> c \<in> run d evs cl n"
  unfolding run_def
  by (induction evs arbitrary: cl) (simp_all add: step_keeps)

lemma revealEntry_reveals: "revealed (revealEntry (n, True) cl) n"
  by (simp add: revealEntry_def revealed_def classList_add_def)

lemma observerCallback_reveals:
  "(n, True) \<in> set es \<Longrightarrow> revealed (observerCallback es cl) n"
  unfolding observerCallback_def
proof (induction es arbitrary: cl)
  case Nil
  then show ?case by simp
next
  case (Cons e es)
  show ?case
  proof (cases "e = (n, True)")
    case True
    have "revealed (revealEntry e cl) n" using True by (simp add: revealEntry_reveals)
    then have "revealed (observerCallback es (revealEntry e cl)) n"
      by (simp add: revealed_def observerCallback_keeps)
    then show ?thesis by (simp add: observerCallback_def)
  next
    case False
    with Cons.prems have "(n, True) \<in> set es" by simp
    then show ?thesis by (simp add: Cons.IH)
  qed
qed

text \<open>
  C7. The revealed state of an element is monotonic. A callback of the observer with an
  entry for the element that is intersecting marks it revealed (the classes \<open>fade-in\<close> and
  \<open>visible\<close>), and an element that is revealed stays revealed after any sequence of events
  of the page: scroll ticks, clicks, later callbacks of the observer (also with the
  element no longer intersecting) and the listeners that write no class.
\<close>

theorem revealed_is_permanent:
  "((n, True) \<in> set entries \<longrightarrow> revealed (observerCallback entries cl) n) \<and>
   (revealed cl n \<longrightarrow> revealed (run d evs cl) n)"
proof (intro conjI impI)
  assume "(n, True) \<in> set entries"
  then show "revealed (observerCallback entries cl) n" by (rule observerCallback_reveals)
next
  assume "revealed cl n"
  then show "revealed (run d evs cl) n" by (simp add: revealed_def run_keeps)
qed

theorem revealed_is_permanent_witness:
  "(20, True) \<in> set [(20, True), (21, False)] \<and>
   \<not> revealed noClasses 20 \<and>
   revealed (observerCallback [(20, True), (21, False)] noClasses) 20 \<and>
   revealed
     (run sampleDom
        [ScrollTick (sampleLayout 550), Intersection [(20, False)], Click 10 (sampleLayout 550),
         Click 1 (sampleLayout 550), StyleOnly, Click 99 (sampleLayout 2000)]
        (observerCallback [(20, True), (21, False)] noClasses)) 20"
proof -
  have m: "(20, True) \<in> set [(20::nat, True), (21, False)]" by simp
  have r: "revealed (observerCallback [(20, True), (21, False)] noClasses) 20"
    using revealed_is_permanent [of 20 "[(20, True), (21, False)]" noClasses] m by blast
  have "revealed
     (run sampleDom
        [ScrollTick (sampleLayout 550), Intersection [(20, False)], Click 10 (sampleLayout 550),
         Click 1 (sampleLayout 550), StyleOnly, Click 99 (sampleLayout 2000)]
        (observerCallback [(20, True), (21, False)] noClasses)) 20"
    using revealed_is_permanent
      [of 20 "[]" "observerCallback [(20, True), (21, False)] noClasses" sampleDom] r
    by blast
  with m r show ?thesis by (simp add: revealed_def noClasses_def)
qed

section \<open>Mobile menu\<close>

lemma menuClose_closes: "\<not> menuOpen panel (menuClose btn panel cl)"
  by (simp add: menuOpen_def menuClose_def classList_remove_def)

lemma menuClose_idem: "menuClose btn panel (menuClose btn panel cl) = menuClose btn panel cl"
  by (rule ext) (simp add: menuClose_def classList_remove_def)

lemma menuClose_closed:
  "''active'' \<notin> cl btn \<Longrightarrow> ''active'' \<notin> cl panel \<Longrightarrow> menuClose btn panel cl = cl"
  by (rule ext) (simp add: menuClose_def classList_remove_def)

lemma menuToggle_flips:
  "btn \<noteq> panel \<Longrightarrow> menuOpen panel (menuToggle btn panel cl) = (\<not> menuOpen panel cl)"
  by (simp add: menuOpen_def menuToggle_def classList_toggle_def classList_remove_def
      classList_add_def)

lemma fold_linkListeners_filter:
  "fold (linkListeners d lay target) xs cl =
     fold (\<lambda>link cl. menuLinkListener d link (classesAfter (navLinkClick d lay link cl)))
       (filter (\<lambda>link. contains d link target) xs) cl"
  by (induction xs arbitrary: cl) (simp_all add: linkListeners_def)

lemma fold_linkListeners_none:
  "\<forall>x \<in> set xs. \<not> contains d x target \<Longrightarrow> fold (linkListeners d lay target) xs cl = cl"
  by (induction xs arbitrary: cl) (simp_all add: linkListeners_def)

lemma linkListeners_panel_stays_closed:
  assumes "panel \<notin> set (navLinks d)" and "x \<in> set (navLinks d)"
    and "mobileNavLinks d = Some panel" and "\<not> menuOpen panel cl"
  shows "\<not> menuOpen panel (linkListeners d lay target x cl)"
proof -
  from assms(1,2) have "x \<noteq> panel" by auto
  with assms(4) have "\<not> menuOpen panel (classesAfter (navLinkClick d lay x cl))"
    using classesAfter_navLinkClick [of d lay x cl] assms(1)
    by (auto simp: menuOpen_def classList_add_def clearActive_apply)
  then show ?thesis
    using assms(3,4)
    by (auto simp: linkListeners_def menuLinkListener_def menuClose_closes split: option.splits)
qed

lemma linkListeners_closes:
  assumes "mobileMenuBtn d = Some btn" and "mobileNavLinks d = Some panel"
    and "link \<in> set (menuAnchors d)" and "contains d link target"
  shows "\<not> menuOpen panel (linkListeners d lay target link cl)"
  using assms by (simp add: linkListeners_def menuLinkListener_def menuClose_closes)

lemma fold_linkListeners_stays_closed:
  assumes "panel \<notin> set (navLinks d)" and "mobileNavLinks d = Some panel"
    and "set xs \<subseteq> set (navLinks d)" and "\<not> menuOpen panel cl"
  shows "\<not> menuOpen panel (fold (linkListeners d lay target) xs cl)"
  using assms(3,4)
proof (induction xs arbitrary: cl)
  case Nil
  then show ?case by simp
next
  case (Cons x xs)
  from Cons.prems have "\<not> menuOpen panel (linkListeners d lay target x cl)"
    using linkListeners_panel_stays_closed [OF assms(1) _ assms(2)] by simp
  with Cons show ?case by simp
qed

lemma fold_linkListeners_closes:
  assumes "mobileMenuBtn d = Some btn" and "mobileNavLinks d = Some panel"
    and "panel \<notin> set (navLinks d)"
    and "link \<in> set (menuAnchors d)" and "contains d link target"
    and "link \<in> set xs" and "set xs \<subseteq> set (navLinks d)"
  shows "\<not> menuOpen panel (fold (linkListeners d lay target) xs cl)"
  using assms(6,7)
proof (induction xs arbitrary: cl)
  case Nil
  then show ?case by simp
next
  case (Cons x xs)
  show ?case
  proof (cases "x = link")
    case True
    have "\<not> menuOpen panel (linkListeners d lay target x cl)"
      unfolding True using assms(1,2,4,5) by (rule linkListeners_closes)
    then have "\<not> menuOpen panel (fold (linkListeners d lay target) xs (linkListeners d lay target x cl))"
      using Cons.prems(2) by (intro fold_linkListeners_stays_closed [OF assms(3,2)]) simp_all
    then show ?thesis by simp
  next
    case False
    with Cons.prems have "link \<in> set xs" and "set xs \<subseteq> set (navLinks d)" by auto
    then show ?thesis using Cons.IH by simp
  qed
qed

lemma click_outside_closes:
  assumes "mobileMenuBtn d = Some btn" and "mobileNavLinks d = Some panel"
    and "\<not> contains d btn target" and "\<not> contains d panel target"
  shows "\<not> menuOpen panel (click d lay target cl)"
  using assms by (simp add: click_def documentListener_def menuClose_closes)

lemma click_outside_closed_noop:
  assumes "mobileMenuBtn d = Some btn" and "mobileNavLinks d = Some panel"
    and "\<not> contains d btn target" and "\<not> contains d panel target"
    and "\<forall>x \<in> set (navLinks d). \<not> contains d x target"
    and "''active'' \<notin> cl btn" and "\<not> menuOpen panel cl"
  shows "click d lay target cl = cl"
  using assms
  by (simp add: click_def fold_linkListeners_none buttonListener_def documentListener_def
      menuClose_closed menuOpen_def)

lemma click_link_closes:
  assumes "mobileMenuBtn d = Some btn" and "mobileNavLinks d = Some panel"
    and "panel \<notin> set (navLinks d)"
    and "link \<in> set (navLinks d)" and "link \<in> set (menuAnchors d)"
    and "contains d link target" and "\<not> contains d btn target"
  shows "\<not> menuOpen panel (click d lay target cl)"
proof -
  have "\<not> menuOpen panel (fold (linkListeners d lay target) (navLinks d) cl)"
    using assms(1,2,3,5,6,4) by (rule fold_linkListeners_closes) simp
  then show ?thesis
    using assms(1,2,7)
    by (simp add: click_def buttonListener_def documentListener_def menuClose_closes)
qed

lemma click_link_order:
  assumes "mobileMenuBtn d = Some btn" and "mobileNavLinks d = Some panel"
    and "link \<in> set (menuAnchors d)" and "\<not> contains d btn target"
    and "filter (\<lambda>x. contains d x target) (navLinks d) = [link]"
  shows "click d lay target cl = menuClose btn panel (classesAfter (navLinkClick d lay link cl))"
  using assms
  by (simp add: click_def fold_linkListeners_filter buttonListener_def documentListener_def
      menuLinkListener_def menuClose_idem)

lemma click_toggle_flips:
  assumes "mobileMenuBtn d = Some btn" and "mobileNavLinks d = Some panel" and "btn \<noteq> panel"
    and "contains d btn target" and "\<forall>x \<in> set (navLinks d). \<not> contains d x target"
  shows "menuOpen panel (click d lay target cl) = (\<not> menuOpen panel cl)"
  using assms
  by (simp add: click_def fold_linkListeners_none buttonListener_def documentListener_def
      menuToggle_flips)

text \<open>
  C8. On a page with the menu button and the panel (two different elements, the panel not
  itself a nav link): a click whose target is outside both the button and the panel leaves
  the menu closed, whatever it was, and changes nothing when the menu was closed and the
  target is in no nav link; a click on a nav link of the panel that is not inside the
  button leaves the menu closed, whatever it was, and when that link is the only nav link
  holding the target the class lists are those that the link's own listener leaves, with
  the menu closed afterwards; a click on the button, outside every nav link, flips the
  menu. So from a closed menu the sequence toggle, outside click, toggle, nav-link click
  gives open, closed, open, closed.
\<close>

theorem mobile_menu_closes:
  assumes "mobileMenuBtn d = Some btn" and "mobileNavLinks d = Some panel"
    and "btn \<noteq> panel" and "panel \<notin> set (navLinks d)"
    and "\<not> contains d btn away" and "\<not> contains d panel away"
    and "contains d btn onBtn" and "\<forall>x \<in> set (navLinks d). \<not> contains d x onBtn"
    and "link \<in> set (navLinks d)" and "link \<in> set (menuAnchors d)"
    and "contains d link onLink" and "\<not> contains d btn onLink"
  shows "\<not> menuOpen panel (click d lay away cl) \<and>
         ((\<forall>x \<in> set (navLinks d). \<not> contains d x away) \<and> ''active'' \<notin> cl btn \<and> \<not> menuOpen panel cl
            \<longrightarrow> click d lay away cl = cl) \<and>
         \<not> menuOpen panel (click d lay onLink cl) \<and>
         (filter (\<lambda>x. contains d x onLink) (navLinks d) = [link]
            \<longrightarrow> click d lay onLink cl = menuClose btn panel (classesAfter (navLinkClick d lay link cl))) \<and>
         menuOpen panel (click d lay onBtn cl) = (\<not> menuOpen panel cl) \<and>
         (\<not> menuOpen panel cl \<longrightarrow>
            menuOpen panel (run d [Click onBtn l1] cl) \<and>
            \<not> menuOpen panel (run d [Click onBtn l1, Click away l2] cl) \<and>
            menuOpen panel (run d [Click onBtn l1, Click away l2, Click onBtn l3] cl) \<and>
            \<not> menuOpen panel (run d [Click onBtn l1, Click away l2, Click onBtn l3, Click onLink l4] cl))"
proof (intro conjI impI)
  show "\<not> menuOpen panel (click d lay away cl)"
    using assms(1,2,5,6) by (rule click_outside_closes)
  show "\<not> menuOpen panel (click d lay onLink cl)"
    using assms(1,2,4,9,10,11,12) by (rule click_link_closes)
  show "menuOpen panel (click d lay onBtn cl) = (\<not> menuOpen panel cl)"
    using assms(1,2,3,7,8) by (rule click_toggle_flips)
next
  assume "(\<forall>x \<in> set (navLinks d). \<not> contains d x away) \<and> ''active'' \<notin> cl btn \<and> \<not> menuOpen panel cl"
  then show "click d lay away cl = cl"
    using assms(1,2,5,6) by (intro click_outside_closed_noop [of d btn panel]) simp_all
next
  assume "filter (\<lambda>x. contains d x onLink) (navLinks d) = [link]"
  with assms(1,2,10,12)
  show "click d lay onLink cl = menuClose btn panel (classesAfter (navLinkClick d lay link cl))"
    by (rule click_link_order)
next
  assume closed: "\<not> menuOpen panel cl"
  have flip: "\<And>lay c. menuOpen panel (click d lay onBtn c) = (\<not> menuOpen panel c)"
    using assms(1,2,3,7,8) by (rule click_toggle_flips)
  have closes: "\<And>lay c. \<not> menuOpen panel (click d lay away c)"
    using assms(1,2,5,6) by (rule click_outside_closes)
  have onlink: "\<And>lay c. \<not> menuOpen panel (click d lay onLink c)"
    using assms(1,2,4,9,10,11,12) by (rule click_link_closes)
  show "menuOpen panel (run d [Click onBtn l1] cl)"
    using closed by (simp add: run_def flip)
  show "\<not> menuOpen panel (run d [Click onBtn l1, Click away l2] cl)"
    by (simp add: run_def closes)
  show "menuOpen panel (run d [Click onBtn l1, Click away l2, Click onBtn l3] cl)"
    by (simp add: run_def flip closes)
  show "\<not> menuOpen panel (run d [Click onBtn l1, Click away l2, Click onBtn l3, Click onLink l4] cl)"
    by (simp add: run_def onlink)
qed

theorem mobile_menu_closes_witness:
  "mobileMenuBtn sampleDom = Some 10 \<and> mobileNavLinks sampleDom = Some 11 \<and>
   11 \<notin> set (navLinks sampleDom) \<and>
   \<not> contains sampleDom 10 99 \<and> \<not> contains sampleDom 11 99 \<and>
   contains sampleDom 10 10 \<and> list_all (\<lambda>x. \<not> contains sampleDom x 10) (navLinks sampleDom) \<and>
   2 \<in> set (navLinks sampleDom) \<and> 2 \<in> set (menuAnchors sampleDom) \<and>
   contains sampleDom 2 2 \<and> \<not> contains sampleDom 10 2 \<and>
   \<not> menuOpen 11 noClasses \<and> ''active'' \<notin> noClasses 10 \<and>
   list_all (\<lambda>x. \<not> contains sampleDom x 99) (navLinks sampleDom) \<and>
   click sampleDom (sampleLayout 0) 99 noClasses = noClasses \<and>
   filter (\<lambda>x. contains sampleDom x 2) (navLinks sampleDom) = [2] \<and>
   click sampleDom (sampleLayout 0) 2 noClasses =
     menuClose 10 11 (classesAfter (navLinkClick sampleDom (sampleLayout 0) 2 noClasses)) \<and>
   menuOpen 11 (run sampleDom [Click 10 (sampleLayout 0)] noClasses) \<and>
   \<not> menuOpen 11 (run sampleDom [Click 10 (sampleLayout 0), Click 99 (sampleLayout 0)] noClasses) \<and>
   menuOpen 11
     (run sampleDom
        [Click 10 (sampleLayout 0), Click 99 (sampleLayout 0), Click 10 (sampleLayout 0)]
        noClasses) \<and>
   \<not> menuOpen 11
     (run sampleDom
        [Click 10 (sampleLayout 0), Click 99 (sampleLayout 0), Click 10 (sampleLayout 0),
         Click 2 (sampleLayout 0)]
        noClasses)"
proof -
  have h1: "mobileMenuBtn sampleDom = Some 10" and h2: "mobileNavLinks sampleDom = Some 11"
    and h3: "(10::nat) \<noteq> 11" and h4: "11 \<notin> set (navLinks sampleDom)"
    and h5: "\<not> contains sampleDom 10 99" and h6: "\<not> contains sampleDom 11 99"
    and h7: "contains sampleDom 10 10"
    and h8: "\<forall>x \<in> set (navLinks sampleDom). \<not> contains sampleDom x 10"
    and h9: "2 \<in> set (navLinks sampleDom)" and h10: "2 \<in> set (menuAnchors sampleDom)"
    and h11: "contains sampleDom 2 2" and h12: "\<not> contains sampleDom 10 2"
    by (simp_all add: sampleDom_def)
  have c: "\<not> menuOpen 11 noClasses" and b: "''active'' \<notin> noClasses 10"
    by (simp_all add: menuOpen_def noClasses_def)
  have n: "\<forall>x \<in> set (navLinks sampleDom). \<not> contains sampleDom x 99"
    and f: "filter (\<lambda>x. contains sampleDom x 2) (navLinks sampleDom) = [2]"
    by (simp_all add: sampleDom_def)
  note inst = mobile_menu_closes [OF h1 h2 h3 h4 h5 h6 h7 h8 h9 h10 h11 h12,
      of "sampleLayout 0" noClasses "sampleLayout 0" "sampleLayout 0" "sampleLayout 0"
        "sampleLayout 0"]
  from inst n b c have noop: "click sampleDom (sampleLayout 0) 99 noClasses = noClasses"
    by blast
  from inst f have order: "click sampleDom (sampleLayout 0) 2 noClasses =
     menuClose 10 11 (classesAfter (navLinkClick sampleDom (sampleLayout 0) 2 noClasses))"
    by blast
  from inst c
  have "menuOpen 11 (run sampleDom [Click 10 (sampleLayout 0)] noClasses) \<and>
   \<not> menuOpen 11 (run sampleDom [Click 10 (sampleLayout 0), Click 99 (sampleLayout 0)] noClasses) \<and>
   menuOpen 11
     (run sampleDom
        [Click 10 (sampleLayout 0), Click 99 (sampleLayout 0), Click 10 (sampleLayout 0)]
        noClasses) \<and>
   \<not> menuOpen 11
     (run sampleDom
        [Click 10 (sampleLayout 0), Click 99 (sampleLayout 0), Click 10 (sampleLayout 0),
         Click 2 (sampleLayout 0)]
        noClasses)"
    by blast
  with h1 h2 h4 h5 h6 h7 h8 h9 h10 h11 h12 c b n f noop order show ?thesis
    by (simp add: list_all_iff)
qed

section \<open>Clicks on anchor links\<close>

text \<open>
  For a link to \<open>#name\<close> with a plain name, the listener does what C3 and C5 say: with an
  element of that id and a nav container it suppresses the default, asks for a scroll to
  \<open>offsetTop\<close> of the element less the container's height, and leaves the clicked link
  active and no other nav link; with no element of that id it only suppresses the default.
\<close>

lemma navLinkClick_found:
  assumes "href d link = Some (CHR ''#'' # name)" and "plainIdent name"
    and "getElementById lay name = Some target" and "navContainerHeight lay = Some headerHeight"
  shows "navLinkClick d lay link cl =
           \<lparr>defaultPrevented = True, scrolledTo = Some (offsetTop target - headerHeight),
            thrown = None, classesAfter = classList_add link ''active'' (clearActive d cl)\<rparr>"
  using assms
  by (simp add: navLinkClick_def startsWithHash_def anchorClick_def querySelector_def)

lemma navLinkClick_activates:
  "isActive (classList_add link ''active'' (clearActive d cl)) n =
     (n = link \<or> (n \<notin> set (navLinks d) \<and> isActive cl n))"
  by (auto simp: isActive_def classList_add_def clearActive_apply)

lemma navLinkClick_missing:
  assumes "href d link = Some (CHR ''#'' # name)" and "plainIdent name"
    and "getElementById lay name = None"
  shows "navLinkClick d lay link cl =
           \<lparr>defaultPrevented = True, scrolledTo = None, thrown = None, classesAfter = cl\<rparr>"
  using assms
  by (simp add: navLinkClick_def startsWithHash_def anchorClick_def querySelector_def)

text \<open>
  C3 at a link to \<open>#2024\<close> on a page that has an element with the id \<open>2024\<close>: the default
  is suppressed, then \<open>document.querySelector('#2024')\<close> throws, so no scroll is asked for
  and the clicked link is not made active.
\<close>

theorem anchor_to_numeric_id_throws:
  "href yearDom 1 = Some ''#2024'' \<and>
   getElementById yearLayout ''2024'' =
     Some \<lparr>idAttr = Some ''2024'', offsetTop = 600, offsetHeight = 400\<rparr> \<and>
   navContainerHeight yearLayout = Some 80 \<and>
   defaultPrevented (navLinkClick yearDom yearLayout 1 noClasses) \<and>
   thrown (navLinkClick yearDom yearLayout 1 noClasses) = Some SyntaxError \<and>
   scrolledTo (navLinkClick yearDom yearLayout 1 noClasses) = None \<and>
   \<not> isActive (classesAfter (navLinkClick yearDom yearLayout 1 noClasses)) 1"
  by (simp add: navLinkClick_def startsWithHash_def anchorClick_def querySelector_def
      plainIdent_def isNameStart_def isDigit_def getElementById_def isActive_def
      yearDom_def yearLayout_def noClasses_def)

text \<open>
  C5 at the links to \<open>#\<close> and to \<open>#2025\<close> on the same page, where no element has the empty
  id or the id \<open>2025\<close>: the default is suppressed and \<open>document.querySelector\<close> throws, so
  an exception leaves the listener.
\<close>

theorem anchor_to_missing_id_throws:
  "href yearDom 2 = Some ''#'' \<and> getElementById yearLayout '''' = None \<and>
   defaultPrevented (navLinkClick yearDom yearLayout 2 noClasses) \<and>
   thrown (navLinkClick yearDom yearLayout 2 noClasses) = Some SyntaxError \<and>
   href yearDom 3 = Some ''#2025'' \<and> getElementById yearLayout ''2025'' = None \<and>
   defaultPrevented (navLinkClick yearDom yearLayout 3 noClasses) \<and>
   thrown (navLinkClick yearDom yearLayout 3 noClasses) = Some SyntaxError"
  by (simp add: navLinkClick_def startsWithHash_def anchorClick_def querySelector_def
      plainIdent_def isNameStart_def isDigit_def getElementById_def
      yearDom_def yearLayout_def)

section \<open>Debounce\<close>

subsection \<open>What the operations do to the loop\<close>

lemma executedFunction_eq:
  "executedFunction wait k a s =
     s\<lparr>pending :=
         (case timeout s k of None \<Rightarrow> pending s
          | Some i \<Rightarrow> filter (\<lambda>t. timerId t \<noteq> i) (pending s)) @
         [\<lparr>timerId = nextId s, due = now s + timerDelay wait, wrapper = k, args = a\<rparr>],
       nextId := Suc (nextId s),
       timeout := (timeout s)(k := Some (nextId s))\<rparr>"
  by (simp add: executedFunction_def setTimeout_def clearTimeout_def split: option.splits)

lemma fire_eq:
  "fire t s =
     (if list_ex (\<lambda>u. timerId u = timerId t) (pending s)
      then s\<lparr>pending :=
               (case timeout s (wrapper t) of
                  None \<Rightarrow> filter (\<lambda>u. timerId u \<noteq> timerId t) (pending s)
                | Some i \<Rightarrow> filter (\<lambda>u. timerId u \<noteq> i)
                             (filter (\<lambda>u. timerId u \<noteq> timerId t) (pending s))),
             now := max (now s) (due t),
             invoked := invoked s @ [(max (now s) (due t), wrapper t, args t)]\<rparr>
      else s)"
  by (simp add: fire_def later_def call_def clearTimeout_def split: option.splits)

lemma freshIds_start: "freshIds start"
  by (simp add: freshIds_def start_def)

lemma freshIds_executedFunction: "freshIds s \<Longrightarrow> freshIds (executedFunction wait k a s)"
  unfolding freshIds_def executedFunction_eq
  by (auto simp: distinct_map_filter less_Suc_eq split: option.splits)

lemma freshIds_fire: "freshIds s \<Longrightarrow> freshIds (fire t s)"
  unfolding freshIds_def fire_eq
  by (auto simp: distinct_map_filter split: option.splits)

lemma invocations_executedFunction [simp]:
  "invocations k (executedFunction wait k' a s) = invocations k s"
  by (simp add: invocations_def executedFunction_eq)

lemma now_executedFunction [simp]: "now (executedFunction wait k a s) = now s"
  by (simp add: executedFunction_eq)

lemma invocations_fire_other:
  "wrapper t \<noteq> k \<Longrightarrow> invocations k (fire t s) = invocations k s"
  by (simp add: invocations_def fire_eq)

lemma filter_wrapper_drop_id:
  assumes "\<forall>u \<in> set ps. timerId u = i \<longrightarrow> wrapper u \<noteq> k"
  shows "filter (\<lambda>u. timerId u \<noteq> i \<and> wrapper u = k) ps = filter (\<lambda>u. wrapper u = k) ps"
  using assms by (intro filter_cong) auto

lemma holds_other_call:
  assumes "holds k st s" and "k' \<noteq> k"
  shows "holds k st (executedFunction wait k' a s)"
proof -
  from assms(1) have fr: "freshIds s" by (simp add: holds_def)
  have keep: "filter (\<lambda>u. wrapper u = k) (pending (executedFunction wait k' a s)) =
      filter (\<lambda>u. wrapper u = k) (pending s)"
  proof (cases "timeout s k'")
    case None
    then show ?thesis using assms(2) by (simp add: executedFunction_eq)
  next
    case (Some i)
    have "\<forall>u \<in> set (pending s). timerId u = i \<longrightarrow> wrapper u \<noteq> k"
      using fr Some assms(2) by (auto simp: freshIds_def)
    then show ?thesis
      using Some assms(2) by (simp add: executedFunction_eq filter_wrapper_drop_id)
  qed
  have t: "timeout (executedFunction wait k' a s) k = timeout s k"
    using assms(2) by (simp add: executedFunction_eq)
  show ?thesis
    using assms(1) freshIds_executedFunction [OF fr, of wait k' a] keep t
    by (auto simp: holds_def idle_def list_all_iff filter_empty_conv [symmetric]
        split: option.splits)
qed

lemma filter_id_wrapper:
  "filter (\<lambda>u. timerId u \<noteq> i \<and> wrapper u = k) ps =
     filter (\<lambda>u. timerId u \<noteq> i) (filter (\<lambda>u. wrapper u = k) ps)"
  by (induction ps) auto

lemma holds_own_call:
  assumes "holds k st s"
  shows "holds k (fst st, Some (now s + timerDelay wait, a)) (executedFunction wait k a s)"
proof -
  from assms have fr: "freshIds s" by (simp add: holds_def)
  have gone: "filter (\<lambda>u. wrapper u = k)
      (case timeout s k of None \<Rightarrow> pending s
       | Some i \<Rightarrow> filter (\<lambda>t. timerId t \<noteq> i) (pending s)) = []"
  proof (cases "snd st")
    case None
    with assms have "filter (\<lambda>u. wrapper u = k) (pending s) = []"
      by (simp add: holds_def idle_def list_all_iff filter_empty_conv)
    then show ?thesis
      by (simp add: filter_id_wrapper split: option.splits)
  next
    case (Some c)
    with assms obtain i where
      "filter (\<lambda>u. wrapper u = k) (pending s) =
         [\<lparr>timerId = i, due = fst c, wrapper = k, args = snd c\<rparr>]"
      and "timeout s k = Some i"
      by (auto simp: holds_def)
    then show ?thesis by (simp add: filter_id_wrapper)
  qed
  show ?thesis
    using assms freshIds_executedFunction [OF fr, of wait k a] gone
    by (simp add: holds_def) (simp add: executedFunction_eq)
qed

lemma pending_fire_subset: "set (pending (fire u s)) \<subseteq> set (pending s)"
  by (auto simp: fire_eq split: option.splits)

lemma now_fire: "now s \<le> now (fire u s) \<and> now (fire u s) \<le> max (now s) (due u)"
  by (simp add: fire_eq)

lemma holds_fire_other:
  assumes "holds k st s" and "wrapper u \<noteq> k"
    and "\<forall>v \<in> set (pending s). timerId v = timerId u \<longrightarrow> v = u"
  shows "holds k st (fire u s)"
proof (cases "list_ex (\<lambda>v. timerId v = timerId u) (pending s)")
  case False
  with assms(1) show ?thesis by (simp add: fire_def)
next
  case True
  from assms(1) have fr: "freshIds s" by (simp add: holds_def)
  have a: "\<forall>v \<in> set (pending s). timerId v = timerId u \<longrightarrow> wrapper v \<noteq> k"
    using assms(2,3) by auto
  have b: "\<And>j. timeout s (wrapper u) = Some j \<Longrightarrow>
      \<forall>v \<in> set (pending s). timerId v = j \<longrightarrow> wrapper v \<noteq> k"
    using fr assms(2) by (auto simp: freshIds_def)
  have keep: "filter (\<lambda>v. wrapper v = k) (pending (fire u s)) =
      filter (\<lambda>v. wrapper v = k) (pending s)"
    using True a b
    by (auto simp: fire_eq split: option.splits intro!: filter_cong)
  have t: "timeout (fire u s) k = timeout s k"
    by (simp add: fire_eq)
  show ?thesis
    using assms(1,2) freshIds_fire [OF fr, of u] keep t
    by (auto simp: holds_def idle_def list_all_iff filter_empty_conv [symmetric]
        invocations_fire_other split: option.splits)
qed

lemma holds_fold_fire_others:
  assumes "holds k st s" and "\<forall>u \<in> set L. wrapper u \<noteq> k"
    and "\<forall>u \<in> set L. \<forall>v \<in> set (pending s). timerId v = timerId u \<longrightarrow> v = u"
  shows "holds k st (fold fire L s)"
  using assms
proof (induction L arbitrary: s)
  case Nil
  then show ?case by simp
next
  case (Cons u L)
  have "holds k st (fire u s)"
    using Cons.prems by (intro holds_fire_other) simp_all
  moreover have "\<forall>w \<in> set L. \<forall>v \<in> set (pending (fire u s)). timerId v = timerId w \<longrightarrow> v = w"
    using Cons.prems(3) pending_fire_subset [of u s] by auto
  ultimately have "holds k st (fold fire L (fire u s))"
    using Cons.prems(2) by (intro Cons.IH) simp_all
  then show ?case by simp
qed

lemma pending_fold_fire_subset: "set (pending (fold fire L s)) \<subseteq> set (pending s)"
proof (induction L arbitrary: s)
  case Nil
  show ?case by simp
next
  case (Cons u L)
  show ?case using Cons.IH [of "fire u s"] pending_fire_subset [of u s] by auto
qed

lemma now_fold_fire:
  assumes "now s \<le> b" and "\<forall>u \<in> set L. due u \<le> b"
  shows "now (fold fire L s) \<le> b"
  using assms
proof (induction L arbitrary: s)
  case Nil
  then show ?case by simp
next
  case (Cons u L)
  have "now (fire u s) \<le> b" using now_fire [of s u] Cons.prems by auto
  then show ?case using Cons by simp
qed

lemma timeout_fire [simp]: "timeout (fire u s) = timeout s"
  by (simp add: fire_eq)

lemma timeout_fold_fire [simp]: "timeout (fold fire L s) = timeout s"
  by (induction L arbitrary: s) simp_all

lemma holds_fire_own:
  assumes "holds k (tr, Some c) s" and "now s \<le> fst c" and "timeout s k = Some i"
  shows "holds k (tr @ [c], None)
           (fire \<lparr>timerId = i, due = fst c, wrapper = k, args = snd c\<rparr> s)"
proof -
  let ?u = "\<lparr>timerId = i, due = fst c, wrapper = k, args = snd c\<rparr>"
  from assms(1) have fr: "freshIds s" by (simp add: holds_def)
  from assms(1,3) have
    f: "filter (\<lambda>u. wrapper u = k) (pending s) = [?u]"
    by (auto simp: holds_def)
  then have "?u \<in> set (filter (\<lambda>u. wrapper u = k) (pending s))" by simp
  then have mem: "?u \<in> set (pending s)" by simp
  have ex: "list_ex (\<lambda>v. timerId v = timerId ?u) (pending s)"
    unfolding list_ex_iff using mem by (intro bexI [of _ ?u]) simp_all
  have gone: "filter (\<lambda>v. wrapper v = k) (pending (fire ?u s)) = []"
    using ex assms(3) f by (simp add: fire_eq filter_id_wrapper)
  have inv: "invocations k (fire ?u s) = invocations k s @ [c]"
    using ex assms(2) by (simp add: fire_eq invocations_def max_def)
  show ?thesis
    using assms(1) freshIds_fire [OF fr, of ?u] gone inv
    by (simp add: holds_def idle_def list_all_iff filter_empty_conv)
qed

lemma holds_now_update [simp]: "holds k st (s\<lparr>now := n\<rparr>) = holds k st s"
  by (cases "snd st") (simp_all add: holds_def freshIds_def idle_def invocations_def)

lemma same_id_same_timer:
  assumes "freshIds s" and "u \<in> set (pending s)"
  shows "\<forall>v \<in> set (pending s). timerId v = timerId u \<longrightarrow> v = u"
  using assms by (auto simp: freshIds_def distinct_map inj_on_def)

lemma holds_advance:
  assumes "holds k st s" and "case snd st of None \<Rightarrow> True | Some c \<Rightarrow> now s \<le> fst c"
    and "now s \<le> t"
  shows "holds k (slotAdvance t st) (advance t s)"
    and "now (advance t s) = t"
proof -
  define L where "L = sort_key due (filter (\<lambda>u. due u \<le> t) (pending s))"
  from assms(1) have fr: "freshIds s" by (simp add: holds_def)
  have sub: "set L \<subseteq> set (pending s)" and dues: "\<forall>u \<in> set L. due u \<le> t"
    by (auto simp: L_def)
  have ids: "\<forall>u \<in> set L. \<forall>v \<in> set (pending s). timerId v = timerId u \<longrightarrow> v = u"
    using same_id_same_timer [OF fr] sub by blast
  have adv: "advance t s = (fold fire L s)\<lparr>now := max (now (fold fire L s)) t\<rparr>"
    by (simp add: advance_def L_def Let_def)
  have "now (fold fire L s) \<le> t"
    using assms(3) dues by (rule now_fold_fire)
  then show "now (advance t s) = t" by (simp add: adv max_def)
  show "holds k (slotAdvance t st) (advance t s)"
  proof (cases "snd st")
    case None
    with assms(1) have "\<forall>u \<in> set L. wrapper u \<noteq> k"
      using sub by (auto simp: holds_def idle_def list_all_iff)
    with assms(1) ids have "holds k st (fold fire L s)"
      by (intro holds_fold_fire_others) simp_all
    with None show ?thesis by (simp add: adv slotAdvance_def)
  next
    case (Some c)
    with assms(1) obtain i where
      f: "filter (\<lambda>u. wrapper u = k) (pending s) =
            [\<lparr>timerId = i, due = fst c, wrapper = k, args = snd c\<rparr>]"
      and ti: "timeout s k = Some i"
      by (auto simp: holds_def)
    let ?u = "\<lparr>timerId = i, due = fst c, wrapper = k, args = snd c\<rparr>"
    have fl: "filter (\<lambda>u. wrapper u = k) L = (if fst c \<le> t then [?u] else [])"
    proof -
      have "filter (\<lambda>u. wrapper u = k) L =
          sort_key due (filter (\<lambda>u. due u \<le> t) (filter (\<lambda>u. wrapper u = k) (pending s)))"
        unfolding L_def filter_sort filter_filter by (simp add: conj_commute)
      then show ?thesis by (simp add: f)
    qed
    show ?thesis
    proof (cases "fst c \<le> t")
      case False
      with fl have "\<forall>u \<in> set L. wrapper u \<noteq> k" by (simp add: filter_empty_conv)
      with assms(1) ids have "holds k st (fold fire L s)"
        by (intro holds_fold_fire_others) simp_all
      with Some False show ?thesis by (simp add: adv slotAdvance_def)
    next
      case True
      with fl have "filter (\<lambda>u. wrapper u = k) L = [?u]" by simp
      then obtain L1 L2 where L: "L = L1 @ ?u # L2"
        and o1: "\<forall>u \<in> set L1. wrapper u \<noteq> k" and e2: "[] = filter (\<lambda>u. wrapper u = k) L2"
        unfolding filter_eq_Cons_iff by blast
      from e2 [symmetric] have o2: "\<forall>u \<in> set L2. wrapper u \<noteq> k"
        by (simp add: filter_empty_conv)
      have "sorted (map due L)" by (simp add: L_def)
      then have d1: "\<forall>u \<in> set L1. due u \<le> fst c"
        by (auto simp: L sorted_append)
      have st: "st = (fst st, Some c)" using Some by (cases st) simp
      have h1: "holds k (fst st, Some c) (fold fire L1 s)"
        using assms(1) o1 ids by (subst st [symmetric], intro holds_fold_fire_others) (auto simp: L)
      have n1: "now (fold fire L1 s) \<le> fst c"
        using assms(2) Some d1 by (intro now_fold_fire) simp_all
      have h2: "holds k (fst st @ [c], None) (fire ?u (fold fire L1 s))"
        using h1 n1 by (rule holds_fire_own) (simp add: ti)
      have "set (pending (fire ?u (fold fire L1 s))) \<subseteq> set (pending s)"
        using pending_fire_subset [of ?u "fold fire L1 s"] pending_fold_fire_subset [of L1 s]
        by blast
      with ids have ids2: "\<forall>w \<in> set L2.
          \<forall>v \<in> set (pending (fire ?u (fold fire L1 s))). timerId v = timerId w \<longrightarrow> v = w"
        by (auto simp: L)
      have "holds k (fst st @ [c], None) (fold fire L2 (fire ?u (fold fire L1 s)))"
        using h2 o2 ids2 by (rule holds_fold_fire_others)
      then show ?thesis using Some True by (simp add: adv L slotAdvance_def)
    qed
  qed
qed

lemma tracks_runCall:
  assumes "tracks k st s"
  shows "tracks k (slotCall k (timerDelay (waitOf k)) (now s) c st) (runCall waitOf c s)"
proof (cases "fst c = k")
  case True
  from assms have "holds k st s" by (simp add: tracks_def)
  then have "holds k (fst st, Some (now s + timerDelay (waitOf k), snd c))
      (executedFunction (waitOf k) k (snd c) s)"
    by (rule holds_own_call)
  with True show ?thesis by (simp add: tracks_def slotCall_def runCall_def)
next
  case False
  from assms have "holds k st s" by (simp add: tracks_def)
  then have "holds k st (executedFunction (waitOf (fst c)) (fst c) (snd c) s)"
    using False by (rule holds_other_call)
  with False assms show ?thesis
    by (auto simp: tracks_def slotCall_def runCall_def split: option.splits)
qed

lemma now_runCall [simp]: "now (runCall waitOf c s) = now s"
  by (simp add: runCall_def)

lemma tracks_fold_runCall:
  assumes "tracks k st s"
  shows "tracks k (fold (slotCall k (timerDelay (waitOf k)) (now s)) cs st)
           (fold (runCall waitOf) cs s) \<and>
         now (fold (runCall waitOf) cs s) = now s"
  using assms
proof (induction cs arbitrary: st s)
  case Nil
  then show ?case by simp
next
  case (Cons c cs)
  have "tracks k (slotCall k (timerDelay (waitOf k)) (now s) c st) (runCall waitOf c s)"
    using Cons.prems by (rule tracks_runCall)
  from Cons.IH [OF this] show ?case by simp
qed

lemma tracks_runTask:
  assumes "tracks k st s" and "now s \<le> fst tk"
  shows "tracks k (slotTask k (timerDelay (waitOf k)) tk st) (runTask waitOf tk s)"
    and "now (runTask waitOf tk s) = fst tk"
proof -
  from assms(1) have h: "holds k st s"
    and n: "case snd st of None \<Rightarrow> True | Some c \<Rightarrow> now s \<le> fst c"
    by (simp_all add: tracks_def)
  have a: "holds k (slotAdvance (fst tk) st) (advance (fst tk) s)"
    and b: "now (advance (fst tk) s) = fst tk"
    using holds_advance [OF h n assms(2)] by simp_all
  have "tracks k (slotAdvance (fst tk) st) (advance (fst tk) s)"
    using a b by (auto simp: tracks_def slotAdvance_def split: option.splits)
  from tracks_fold_runCall [OF this, of waitOf "snd tk"] b
  show "tracks k (slotTask k (timerDelay (waitOf k)) tk st) (runTask waitOf tk s)"
    and "now (runTask waitOf tk s) = fst tk"
    by (simp_all add: slotTask_def runTask_def)
qed

lemma tracks_runTasks:
  assumes "tracks k st s" and "sorted (now s # map fst ts)"
  shows "tracks k (fold (slotTask k (timerDelay (waitOf k))) ts st) (runTasks waitOf ts s) \<and>
         now (runTasks waitOf ts s) = last (now s # map fst ts)"
  using assms unfolding runTasks_def
proof (induction ts arbitrary: st s)
  case Nil
  then show ?case by simp
next
  case (Cons tk ts)
  from Cons.prems(2) have le: "now s \<le> fst tk" by simp
  note step = tracks_runTask [OF Cons.prems(1) le, of waitOf]
  have "sorted (now (runTask waitOf tk s) # map fst ts)"
    using Cons.prems(2) step(2) by simp
  from Cons.IH [OF step(1) this] step(2) show ?case by simp
qed

lemma debounce_is_slot:
  assumes "freshIds s" and "idle k s" and "sorted (now s # map fst ts @ [t])"
  shows "invocations k (advance t (runTasks waitOf ts s)) =
           fst (slotAdvance t (fold (slotTask k (timerDelay (waitOf k))) ts (invocations k s, None)))"
proof -
  have t0: "tracks k (invocations k s, None) s"
    using assms(1,2) by (simp add: tracks_def holds_def)
  from assms(3) have so: "sorted (now s # map fst ts)"
    by (auto simp: sorted_append)
  have "last (now s # map fst ts) \<in> set (now s # map fst ts)"
    by (rule last_in_set) simp
  with assms(3) have lt: "last (now s # map fst ts) \<le> t"
    by (auto simp: sorted_append)
  from tracks_runTasks [OF t0 so, of waitOf]
  have tr: "tracks k (fold (slotTask k (timerDelay (waitOf k))) ts (invocations k s, None))
      (runTasks waitOf ts s)"
    and n: "now (runTasks waitOf ts s) \<le> t"
    using lt by simp_all
  from tr have "holds k (slotAdvance t (fold (slotTask k (timerDelay (waitOf k))) ts (invocations k s, None)))
      (advance t (runTasks waitOf ts s))"
    using n by (intro holds_advance) (simp_all add: tracks_def)
  then show ?thesis by (simp add: holds_def)
qed

lemma timerDelay_small: "0 \<le> wait \<Longrightarrow> wait < 2147483648 \<Longrightarrow> timerDelay wait = nat wait"
  by (simp add: timerDelay_def Let_def)

lemma callsTo_Cons: "callsTo k (tk # ts) = callsIn k tk @ callsTo k ts"
  by (simp add: callsTo_def)

lemma fold_slotCall:
  "fold (slotCall k delay t) cs (tr, x) =
     (tr, if callsIn k (t, cs) = [] then x
          else Some (t + delay, snd (last (callsIn k (t, cs)))))"
proof (induction cs arbitrary: x)
  case Nil
  show ?case by (simp add: callsIn_def)
next
  case (Cons c cs)
  show ?case
  proof (cases "fst c = k")
    case True
    then have "slotCall k delay t c (tr, x) = (tr, Some (t + delay, snd c))"
      by (simp add: slotCall_def)
    then have "fold (slotCall k delay t) (c # cs) (tr, x) =
        fold (slotCall k delay t) cs (tr, Some (t + delay, snd c))"
      by simp
    also have "\<dots> = (tr, if callsIn k (t, cs) = [] then Some (t + delay, snd c)
          else Some (t + delay, snd (last (callsIn k (t, cs)))))"
      by (rule Cons.IH)
    finally show ?thesis using True by (simp add: callsIn_def)
  next
    case False
    then have "slotCall k delay t c (tr, x) = (tr, x)"
      by (simp add: slotCall_def)
    then have "fold (slotCall k delay t) (c # cs) (tr, x) = fold (slotCall k delay t) cs (tr, x)"
      by simp
    also have "\<dots> = (tr, if callsIn k (t, cs) = [] then x
          else Some (t + delay, snd (last (callsIn k (t, cs)))))"
      by (rule Cons.IH)
    finally show ?thesis using False by (simp add: callsIn_def)
  qed
qed

lemma fst_callsIn: "c \<in> set (callsIn k tk) \<Longrightarrow> fst c = fst tk"
  by (auto simp: callsIn_def)

lemma slotTask_no_call:
  "callsIn k tk = [] \<Longrightarrow> slotTask k delay tk st = slotAdvance (fst tk) st"
  by (cases st, cases tk) (simp add: slotTask_def fold_slotCall slotAdvance_def split: option.splits)

lemma slotTask_call:
  assumes "callsIn k tk \<noteq> []" and "case x of None \<Rightarrow> True | Some c \<Rightarrow> fst tk < fst c"
  shows "slotTask k delay tk (tr, x) = (tr, Some (fst tk + delay, snd (last (callsIn k tk))))"
  using assms
  by (cases tk) (auto simp: slotTask_def fold_slotCall slotAdvance_def split: option.splits)

lemma fold_slotTask_no_calls:
  "callsTo k ts = [] \<Longrightarrow> fold (slotTask k delay) ts (tr, None) = (tr, None)"
proof (induction ts)
  case Nil
  show ?case by simp
next
  case (Cons tk ts)
  then show ?case by (simp add: callsTo_Cons slotTask_no_call slotAdvance_def)
qed

lemma closeCalls_late:
  assumes "closeCalls k wait (Some p) ts" and "\<forall>t \<in> set (map fst ts). int p + wait \<le> int t"
  shows "callsTo k ts = []"
  using assms
proof (induction ts)
  case Nil
  show ?case by (simp add: callsTo_def)
next
  case (Cons tk ts)
  from Cons.prems have "callsIn k tk = []" by (cases "callsIn k tk = []") auto
  with Cons show ?case by (simp add: callsTo_Cons)
qed

lemma slot_armed:
  assumes "closeCalls k (int delay) (Some p) ts" and "sorted (p # map fst ts @ [T])"
  shows "fst (slotAdvance T (fold (slotTask k delay) ts (tr, Some (p + delay, a)))) =
           tr @ (let c = last ((p, a) # callsTo k ts)
                 in if fst c + delay \<le> T then [(fst c + delay, snd c)] else [])"
  using assms
proof (induction ts arbitrary: p a)
  case Nil
  show ?case by (simp add: slotAdvance_def callsTo_def)
next
  case (Cons tk ts)
  from Cons.prems(2) have ptk: "p \<le> fst tk" and tkT: "fst tk \<le> T"
    and so: "sorted (fst tk # map fst ts @ [T])" and sp: "sorted (p # map fst ts @ [T])"
    and later: "\<forall>t \<in> set (map fst ts). fst tk \<le> t"
    by (auto simp: sorted_append)
  show ?case
  proof (cases "callsIn k tk = []")
    case True
    with Cons.prems(1) have cl: "closeCalls k (int delay) (Some p) ts" by simp
    show ?thesis
    proof (cases "p + delay \<le> fst tk")
      case False
      then have "slotTask k delay tk (tr, Some (p + delay, a)) = (tr, Some (p + delay, a))"
        using True by (simp add: slotTask_no_call slotAdvance_def)
      then show ?thesis
        using Cons.IH [OF cl sp, of a] True by (simp add: callsTo_Cons)
    next
      case late: True
      then have st: "slotTask k delay tk (tr, Some (p + delay, a)) = (tr @ [(p + delay, a)], None)"
        using True by (simp add: slotTask_no_call slotAdvance_def)
      have "\<forall>t \<in> set (map fst ts). int p + int delay \<le> int t"
        using later late by auto
      with cl have none: "callsTo k ts = []" by (rule closeCalls_late)
      then have "fold (slotTask k delay) ts (tr @ [(p + delay, a)], None) = (tr @ [(p + delay, a)], None)"
        by (rule fold_slotTask_no_calls)
      then show ?thesis
        using st True none late tkT by (simp add: callsTo_Cons slotAdvance_def)
    qed
  next
    case False
    with Cons.prems(1) have near: "fst tk < p + delay"
      and cl: "closeCalls k (int delay) (Some (fst tk)) ts"
      by simp_all
    have st: "slotTask k delay tk (tr, Some (p + delay, a)) =
        (tr, Some (fst tk + delay, snd (last (callsIn k tk))))"
      using False near by (intro slotTask_call) simp_all
    have lastIn: "last (callsIn k tk) = (fst tk, snd (last (callsIn k tk)))"
      using fst_callsIn [of "last (callsIn k tk)" k tk] False
      by (metis last_in_set prod.collapse)
    have "last ((p, a) # callsTo k (tk # ts)) =
        last ((fst tk, snd (last (callsIn k tk))) # callsTo k ts)"
      using False lastIn by (simp add: callsTo_Cons)
    then show ?thesis
      using Cons.IH [OF cl so, of "snd (last (callsIn k tk))"] st by simp
  qed
qed

lemma slot_idle:
  assumes "closeCalls k (int delay) None ts" and "sorted (map fst ts @ [T])"
    and "callsTo k ts \<noteq> []"
  shows "fst (slotAdvance T (fold (slotTask k delay) ts (tr, None))) =
           tr @ (let c = last (callsTo k ts)
                 in if fst c + delay \<le> T then [(fst c + delay, snd c)] else [])"
  using assms
proof (induction ts)
  case Nil
  then show ?case by (simp add: callsTo_def)
next
  case (Cons tk ts)
  from Cons.prems(2) have so: "sorted (fst tk # map fst ts @ [T])"
    and st: "sorted (map fst ts @ [T])"
    by (auto simp: sorted_append)
  show ?case
  proof (cases "callsIn k tk = []")
    case True
    then have "slotTask k delay tk (tr, None) = (tr, None)"
      by (simp add: slotTask_no_call slotAdvance_def)
    then show ?thesis
      using Cons.IH [OF _ st] Cons.prems(1,3) True by (simp add: callsTo_Cons)
  next
    case False
    with Cons.prems(1) have cl: "closeCalls k (int delay) (Some (fst tk)) ts" by simp
    have s1: "slotTask k delay tk (tr, None) =
        (tr, Some (fst tk + delay, snd (last (callsIn k tk))))"
      using False by (intro slotTask_call) simp_all
    have lastIn: "last (callsIn k tk) = (fst tk, snd (last (callsIn k tk)))"
      using fst_callsIn [of "last (callsIn k tk)" k tk] False
      by (metis last_in_set prod.collapse)
    have "last (callsTo k (tk # ts)) =
        last ((fst tk, snd (last (callsIn k tk))) # callsTo k ts)"
      using False lastIn by (simp add: callsTo_Cons)
    then show ?thesis
      using slot_armed [OF cl so, of tr "snd (last (callsIn k tk))"] s1 by simp
  qed
qed

lemma timerDelay_not_less: "wait < 2147483648 \<Longrightarrow> wait \<le> int (timerDelay wait)"
  by (cases "0 \<le> wait") (simp_all add: timerDelay_def Let_def)

lemma closeCalls_mono:
  "closeCalls k wait prev ts \<Longrightarrow> wait \<le> wait' \<Longrightarrow> closeCalls k wait' prev ts"
proof (induction ts arbitrary: prev)
  case Nil
  show ?case by simp
next
  case (Cons tk ts)
  then show ?case by (cases prev) (auto split: if_splits)
qed

lemma freshIds_fold_fire: "freshIds s \<Longrightarrow> freshIds (fold fire L s)"
  by (induction L arbitrary: s) (simp_all add: freshIds_fire)

lemma freshIds_now_update [simp]: "freshIds (s\<lparr>now := n\<rparr>) = freshIds s"
  by (simp add: freshIds_def)

lemma freshIds_advance: "freshIds s \<Longrightarrow> freshIds (advance t s)"
  by (simp add: advance_def Let_def freshIds_fold_fire)

lemma freshIds_fold_runCall: "freshIds s \<Longrightarrow> freshIds (fold (runCall waitOf) cs s)"
  by (induction cs arbitrary: s) (simp_all add: runCall_def freshIds_executedFunction)

lemma freshIds_runTasks: "freshIds s \<Longrightarrow> freshIds (runTasks waitOf ts s)"
  unfolding runTasks_def
  by (induction ts arbitrary: s) (simp_all add: runTask_def freshIds_fold_runCall freshIds_advance)

text \<open>
  C6, as stated, fails for a \<open>wait\<close> that the browser does not take as it is: with
  \<open>wait = 2^31\<close> the delay is read as negative and taken as 0, so of two calls 5 ms apart
  (well within \<open>wait\<close> of each other) the first has run, at 0 ms, before the second is
  made, and the function runs twice.
\<close>

theorem debounce_long_wait_counterexample:
  "closeCalls () 2147483648 None [(0, [((), ''a'')]), (5, [((), ''b'')])] \<and>
   invocations ()
     (advance 100 (runTasks (sameWait 2147483648) [(0, [((), ''a'')]), (5, [((), ''b'')])] start)) =
     [(0, ''a''), (5, ''b'')]"
  by code_simp

text \<open>
  C6, amended. For every wrapped function \<open>k\<close> made with a \<open>wait\<close> of a whole number of
  milliseconds below \<open>2^31\<close>, and every sequence of tasks in the order of time that call
  wrappers (\<open>k\<close> and others, whose timers may be pending all along), such that no call of
  \<open>k\<close> is pending at the start, \<open>k\<close> is called at least once, and each call of \<open>k\<close> comes
  in the task of the call of \<open>k\<close> before it or in a task less than \<open>wait\<close> after that task:
  the function of \<open>k\<close> is invoked exactly once, with the arguments of the last call, at the
  time of the last call plus the delay that the browser takes from \<open>wait\<close>, which is \<open>wait\<close>
  itself when \<open>wait\<close> is not negative and is never less than \<open>wait\<close>. Before that time it
  is not invoked, and the earlier calls are never executed.
\<close>

theorem debounce_runs_last_call_once:
  assumes "freshIds s" and "idle k s"
    and "waitOf k < 2147483648"
    and "sorted (now s # map fst ts @ [t])"
    and "callsTo k ts \<noteq> []" and "closeCalls k (waitOf k) None ts"
  shows "invocations k (advance t (runTasks waitOf ts s)) =
           invocations k s @
           (let c = last (callsTo k ts)
            in if fst c + timerDelay (waitOf k) \<le> t
               then [(fst c + timerDelay (waitOf k), snd c)] else []) \<and>
         waitOf k \<le> int (timerDelay (waitOf k)) \<and>
         (0 \<le> waitOf k \<longrightarrow> int (timerDelay (waitOf k)) = waitOf k)"
proof (intro conjI impI)
  define delay where "delay = timerDelay (waitOf k)"
  have le: "waitOf k \<le> int delay"
    unfolding delay_def using assms(3) by (rule timerDelay_not_less)
  then show "waitOf k \<le> int (timerDelay (waitOf k))" by (simp add: delay_def)
  have cl: "closeCalls k (int delay) None ts"
    using assms(6) le by (rule closeCalls_mono)
  from assms(4) have so: "sorted (map fst ts @ [t])" by simp
  have "invocations k (advance t (runTasks waitOf ts s)) =
      fst (slotAdvance t (fold (slotTask k delay) ts (invocations k s, None)))"
    using debounce_is_slot [OF assms(1,2,4), of waitOf] by (simp add: delay_def)
  also have "\<dots> = invocations k s @
      (let c = last (callsTo k ts)
       in if fst c + delay \<le> t then [(fst c + delay, snd c)] else [])"
    using cl so assms(5) by (rule slot_idle)
  finally show "invocations k (advance t (runTasks waitOf ts s)) =
           invocations k s @
           (let c = last (callsTo k ts)
            in if fst c + timerDelay (waitOf k) \<le> t
               then [(fst c + timerDelay (waitOf k), snd c)] else [])"
    unfolding delay_def .
next
  assume "0 \<le> waitOf k"
  then show "int (timerDelay (waitOf k)) = waitOf k"
    using assms(3) by (simp add: timerDelay_small)
qed

theorem debounce_runs_last_call_once_witness:
  "freshIds (start :: (scrollHandler, nat) loop) \<and>
   idle UpdateHeader (start :: (scrollHandler, nat) loop) \<and>
   sameWait 10 UpdateHeader < 2147483648 \<and>
   sorted (now (start :: (scrollHandler, nat) loop) # map fst scrollTasks @ [100]) \<and>
   callsTo UpdateHeader scrollTasks = [(0, 0), (1, 1), (2, 2)] \<and>
   closeCalls UpdateHeader 10 None scrollTasks \<and>
   invocations UpdateHeader (advance 100 (runTasks (sameWait 10) scrollTasks start)) = [(12, 2)] \<and>
   invocations UpdateHeader (advance 11 (runTasks (sameWait 10) scrollTasks start)) = [] \<and>
   closeCalls () 0 None [(7, [((), ''a''), ((), ''b'')])] \<and>
   invocations () (advance 7 (runTasks (sameWait 0) [(7, [((), ''a''), ((), ''b'')])] start)) =
     [(7, ''b'')]"
proof -
  let ?s = "start :: (scrollHandler, nat) loop"
  have f: "freshIds ?s" by (rule freshIds_start)
  have i: "idle UpdateHeader ?s" by (simp add: idle_def start_def)
  have w: "sameWait 10 UpdateHeader < 2147483648"
    by (simp add: sameWait_def)
  have c: "callsTo UpdateHeader scrollTasks = [(0, 0), (1, 1), (2, 2)]"
    by (simp add: callsTo_def callsIn_def scrollTasks_def)
  then have n: "callsTo UpdateHeader scrollTasks \<noteq> []" by simp
  have cl: "closeCalls UpdateHeader 10 None scrollTasks"
    by (simp add: callsIn_def scrollTasks_def)
  then have cl': "closeCalls UpdateHeader (sameWait 10 UpdateHeader) None scrollTasks"
    by (simp add: sameWait_def)
  have s100: "sorted (now ?s # map fst scrollTasks @ [100])"
    and s11: "sorted (now ?s # map fst scrollTasks @ [11])"
    by (simp_all add: start_def scrollTasks_def)
  have r100: "invocations UpdateHeader (advance 100 (runTasks (sameWait 10) scrollTasks ?s)) =
      [(12, 2)]"
    using debounce_runs_last_call_once
      [of ?s UpdateHeader "sameWait 10" scrollTasks 100, OF f i w s100 n cl'] c
    by (simp add: sameWait_def timerDelay_def invocations_def start_def)
  have r11: "invocations UpdateHeader (advance 11 (runTasks (sameWait 10) scrollTasks ?s)) = []"
    using debounce_runs_last_call_once
      [of ?s UpdateHeader "sameWait 10" scrollTasks 11, OF f i w s11 n cl'] c
    by (simp add: sameWait_def timerDelay_def invocations_def start_def)
  let ?us = "[(7 :: nat, [((), ''a''), ((), ''b'')])]"
  let ?u = "start :: (unit, string) loop"
  have c0: "callsTo () ?us = [(7, ''a''), (7, ''b'')]"
    by (simp add: callsTo_def callsIn_def)
  have cl0: "closeCalls () 0 None ?us"
    by (simp add: callsIn_def)
  have r0: "invocations () (advance 7 (runTasks (sameWait 0) ?us ?u)) = [(7, ''b'')]"
    using debounce_runs_last_call_once [of ?u "()" "sameWait 0" ?us 7]
      freshIds_start [where ?'a = unit and ?'b = string] c0 cl0
    by (simp add: sameWait_def timerDelay_def invocations_def start_def idle_def)
  from f i w s100 c cl r100 r11 cl0 r0 show ?thesis by blast
qed

section \<open>The scroll listeners\<close>

text \<open>Each scroll event calls both functions at once, through the listeners of lines 57 and 165.\<close>

lemma scrollEvent_direct:
  "invoked (scrollEvent e s) =
     invoked s @ [(now s, UpdateActiveNavLink, e), (now s, UpdateHeader, e)]"
  by (simp add: scrollEvent_def executedFunction_def setTimeout_def clearTimeout_def call_def
      split: option.splits)

text \<open>
  C4 at three scroll events at 0, 1 and 2 ms (the events numbered 0, 1 and 2), observed at
  100 ms: \<open>updateActiveNavLink\<close> and \<open>updateHeader\<close> have each run four times, once with
  each event at its own time and once more at 12 ms from the debounced listener.
\<close>

theorem scroll_burst_invocations:
  "invocations UpdateActiveNavLink
     (advance 100 (fold scrollAt [(0, 0 :: nat), (1, 1), (2, 2)] start)) =
     [(0, 0), (1, 1), (2, 2), (12, 2)] \<and>
   invocations UpdateHeader
     (advance 100 (fold scrollAt [(0, 0 :: nat), (1, 1), (2, 2)] start)) =
     [(0, 0), (1, 1), (2, 2), (12, 2)]"
  by code_simp

section \<open>Touch\<close>

text \<open>
  With \<open>deltaY = touchStartY - touchY\<close>, the listener of line 266 suppresses the default
  for \<open>deltaY < 0\<close> exactly at \<open>scrollY = 0\<close> (so not at any \<open>scrollY > 0\<close>), and for
  \<open>deltaY > 0\<close> exactly when \<open>innerHeight + scrollY \<ge> document.body.offsetHeight\<close>; on a
  page with a \<open>.hero\<close> element a touch move runs that listener.
\<close>

lemma touchmoveListener_overscroll:
  "(windowScrollY w = 0 \<and> touchstart y0 - y1 < 0 \<longrightarrow> touchmoveListener w (touchstart y0) y1) \<and>
   (windowScrollY w > 0 \<and> touchstart y0 - y1 < 0 \<longrightarrow> \<not> touchmoveListener w (touchstart y0) y1) \<and>
   (touchstart y0 - y1 > 0 \<longrightarrow>
      touchmoveListener w (touchstart y0) y1 =
        (innerHeight w + windowScrollY w \<ge> bodyOffsetHeight w))"
  by (auto simp: touchmoveListener_def Let_def)

lemma touchmove_with_hero:
  "touchmove (Some h) w touchStartY touchY = touchmoveListener w touchStartY touchY"
  by (simp add: touchmove_def touchListenersAdded_def createParticles_def)

text \<open>
  C9 at a page without a \<open>.hero\<close> element, scrolled to the top (\<open>scrollY = 0\<close>), with a
  touch that starts at \<open>clientY = 100\<close> and moves to 150, so \<open>deltaY = -50\<close>:
  \<open>createParticles()\<close> throws while the page loads, the touch listeners are never added,
  and the default is not suppressed, although the listener of line 266 would suppress it.
\<close>

theorem touchmove_without_hero:
  "createParticles None = Throws TypeError \<and>
   windowScrollY \<lparr>windowScrollY = 0, innerHeight = 800, bodyOffsetHeight = 3000\<rparr> = 0 \<and>
   touchstart 100 - 150 < 0 \<and>
   touchmoveListener \<lparr>windowScrollY = 0, innerHeight = 800, bodyOffsetHeight = 3000\<rparr>
     (touchstart 100) 150 \<and>
   \<not> touchmove None \<lparr>windowScrollY = 0, innerHeight = 800, bodyOffsetHeight = 3000\<rparr>
     (touchstart 100) 150"
  by (simp add: touchmove_def touchListenersAdded_def createParticles_def touchmoveListener_def
      touchstart_def)


end
